theory Spec2Isabelle
  imports Main "HOL-Library.AList"
begin

section \<open>Python strings\<close>

text \<open>
  A Python \<open>str\<close> is modelled as a \<open>string\<close>; a \<open>char\<close> stands for a code point
  below 256. The character classes are those of CPython on that range:
  \<open>str.isspace\<close> (also the regular expression class \<open>\s\<close> and what \<open>strip()\<close>
  removes) and the word characters of \<open>\w\<close> (alphanumeric or underscore).
\<close>

definition is_space :: "char \<Rightarrow> bool" where
  "is_space c = (let n = (of_char c :: nat) in
     (9 \<le> n \<and> n \<le> 13) \<or> (28 \<le> n \<and> n \<le> 32) \<or> n = 133 \<or> n = 160)"

definition is_word :: "char \<Rightarrow> bool" where
  "is_word c = (let n = (of_char c :: nat) in
     (48 \<le> n \<and> n \<le> 57) \<or> (65 \<le> n \<and> n \<le> 90) \<or> n = 95 \<or> (97 \<le> n \<and> n \<le> 122)
     \<or> n = 170 \<or> n = 178 \<or> n = 179 \<or> n = 181 \<or> n = 185 \<or> n = 186
     \<or> (188 \<le> n \<and> n \<le> 190) \<or> (192 \<le> n \<and> n \<le> 214) \<or> (216 \<le> n \<and> n \<le> 246)
     \<or> 248 \<le> n)"

text \<open>\<open>s.startswith(p)\<close>, \<open>s.endswith(p)\<close> and \<open>sub in s\<close>.\<close>

fun startswith :: "string \<Rightarrow> string \<Rightarrow> bool" where
  "startswith s [] = True"
| "startswith [] (p # ps) = False"
| "startswith (x # xs) (p # ps) = (x = p \<and> startswith xs ps)"

definition endswith :: "string \<Rightarrow> string \<Rightarrow> bool" where
  "endswith s p = startswith (rev s) (rev p)"

fun contains :: "string \<Rightarrow> string \<Rightarrow> bool" where
  "contains sub [] = (sub = [])"
| "contains sub (x # xs) = (startswith (x # xs) sub \<or> contains sub xs)"

text \<open>\<open>s.lstrip()\<close>, \<open>s.strip()\<close> and \<open>s.lstrip(' ')\<close>.\<close>

definition lstrip :: "string \<Rightarrow> string" where
  "lstrip s = dropWhile is_space s"

definition strip :: "string \<Rightarrow> string" where
  "strip s = rev (dropWhile is_space (rev (dropWhile is_space s)))"

definition lstrip_spaces :: "string \<Rightarrow> string" where
  "lstrip_spaces s = dropWhile (\<lambda>c. c = CHR '' '') s"

text \<open>\<open>s.split(c)\<close> for a separator of one character: never an empty list.\<close>

fun split :: "char \<Rightarrow> string \<Rightarrow> string list" where
  "split c [] = [[]]"
| "split c (x # xs) =
     (if x = c then [] # split c xs
      else (case split c xs of [] \<Rightarrow> [[x]] | h # t \<Rightarrow> (x # h) # t))"

text \<open>\<open>sep.join(xs)\<close>.\<close>

fun join :: "string \<Rightarrow> string list \<Rightarrow> string" where
  "join sep [] = []"
| "join sep [x] = x"
| "join sep (x # y # ys) = x @ sep @ join sep (y # ys)"

text \<open>
  \<open>s.lower()\<close> on code points below 256, and
  \<open>s.replace(old, new)\<close>: the occurrences of \<open>old\<close> that do not overlap, from the left.
  With an empty \<open>old\<close> Python inserts \<open>new\<close> around every character.
\<close>

definition lower_chr :: "char \<Rightarrow> char" where
  "lower_chr c = (let n = (of_char c :: nat) in
     if (65 \<le> n \<and> n \<le> 90) \<or> (192 \<le> n \<and> n \<le> 222 \<and> n \<noteq> 215) then char_of (n + 32) else c)"

definition lower :: "string \<Rightarrow> string" where
  "lower s = map lower_chr s"

function replace :: "string \<Rightarrow> string \<Rightarrow> string \<Rightarrow> string" where
  "replace old new [] = (if old = [] then new else [])"
| "replace old new (x # xs) =
     (if old = [] then new @ x # replace old new xs
      else if startswith (x # xs) old
        then new @ replace old new (drop (length old) (x # xs))
      else x # replace old new xs)"
  by pat_completeness auto
termination
  by (relation "measure (\<lambda>(old, new, s). length s)") auto

text \<open>
  Slices \<open>s[i:]\<close> and \<open>s[:i]\<close> with a Python integer: a negative index counts from the
  end. \<open>s.rfind(sub)\<close> is the highest index where \<open>sub\<close> occurs, or \<open>-1\<close>.
\<close>

definition slice_from :: "int \<Rightarrow> string \<Rightarrow> string" where
  "slice_from i s = (if 0 \<le> i then drop (nat i) s else drop (length s - nat (- i)) s)"

definition slice_to :: "int \<Rightarrow> string \<Rightarrow> string" where
  "slice_to i s = (if 0 \<le> i then take (nat i) s else take (length s - nat (- i)) s)"

fun rfind :: "string \<Rightarrow> string \<Rightarrow> int" where
  "rfind sub [] = (if sub = [] then 0 else - 1)"
| "rfind sub (x # xs) =
     (let r = rfind sub xs in
      if 0 \<le> r then r + 1
      else if startswith (x # xs) sub then 0 else - 1)"

section \<open>Regular expressions of the \<open>re\<close> module\<close>

text \<open>
  The patterns of the program repeat single characters of a class only, so a pattern is
  built from: a literal, one character of a class, a greedy repetition \<open>Many p n\<close> of at least \<open>n\<close> characters
  satisfying \<open>p\<close> (\<open>[^x]*\<close>, \<open>\s+\<close>, \<open>\n{3,}\<close>), its lazy form \<open>Few p n\<close> (\<open>.*?\<close>),
  sequence, a greedy optional part, a numbered group, and the anchors \<open>^\<close> and \<open>$\<close>.

  \<open>ms r b s c\<close> lists every way the backtracking matcher can match \<open>r\<close> at the front of
  \<open>s\<close>, in the order in which it tries them: the text matched, the rest of the input and
  the groups. \<open>b\<close> says whether the position is the start of the whole string, and \<open>c\<close>
  holds the groups set so far. The matcher of Python returns the first.
\<close>

datatype re =
    Lit string
  | One "char \<Rightarrow> bool"
  | Many "char \<Rightarrow> bool" nat
  | Few "char \<Rightarrow> bool" nat
  | Seq re re
  | Opt re
  | Grp nat re
  | Bol
  | Eol

type_synonym caps = "nat \<Rightarrow> string option"

fun ms :: "re \<Rightarrow> bool \<Rightarrow> string \<Rightarrow> caps \<Rightarrow> (string \<times> string \<times> caps) list" where
  "ms (Lit l) b s c = (if startswith s l then [(l, drop (length l) s, c)] else [])"
| "ms (One p) b s c = (case s of [] \<Rightarrow> [] | x # xs \<Rightarrow> if p x then [([x], xs, c)] else [])"
| "ms (Many p n) b s c =
     map (\<lambda>j. (take j s, drop j s, c)) (rev [n ..< Suc (length (takeWhile p s))])"
| "ms (Few p n) b s c =
     map (\<lambda>j. (take j s, drop j s, c)) [n ..< Suc (length (takeWhile p s))]"
| "ms (Seq r1 r2) b s c =
     concat (map (\<lambda>(m1, s1, c1).
               map (\<lambda>(m2, s2, c2). (m1 @ m2, s2, c2)) (ms r2 (b \<and> m1 = []) s1 c1))
             (ms r1 b s c))"
| "ms (Opt r) b s c = ms r b s c @ [([], s, c)]"
| "ms (Grp n r) b s c = map (\<lambda>(m, s', c'). (m, s', c'(n \<mapsto> m))) (ms r b s c)"
| "ms Bol b s c = (if b then [([], s, c)] else [])"
| "ms Eol b s c = (if s = [] \<or> s = [CHR 0x0A] then [([], s, c)] else [])"

text \<open>\<open>pattern.match(s)\<close>: the first way to match at the start, if any.\<close>

definition re_match :: "re \<Rightarrow> string \<Rightarrow> (string \<times> string \<times> caps) option" where
  "re_match r s = (case ms r True s Map.empty of [] \<Rightarrow> None | x # _ \<Rightarrow> Some x)"

text \<open>\<open>pattern.search(s)\<close>: the first match at the leftmost position that has one.\<close>

fun search_from :: "re \<Rightarrow> bool \<Rightarrow> string \<Rightarrow> (string \<times> string \<times> caps) option" where
  "search_from r b [] = (case ms r b [] Map.empty of [] \<Rightarrow> None | x # _ \<Rightarrow> Some x)"
| "search_from r b (x # xs) =
     (case ms r b (x # xs) Map.empty of [] \<Rightarrow> search_from r False xs | y # _ \<Rightarrow> Some y)"

definition re_search :: "re \<Rightarrow> string \<Rightarrow> (string \<times> string \<times> caps) option" where
  "re_search r s = search_from r True s"

text \<open>
  \<open>pattern.sub(repl, s)\<close> with a function \<open>repl\<close> of the match (its whole text and its
  groups): the matches are found from the left and do not overlap; the text between them
  is copied. After an empty match one character is copied.
\<close>

function sub_from :: "re \<Rightarrow> (string \<Rightarrow> caps \<Rightarrow> string) \<Rightarrow> bool \<Rightarrow> string \<Rightarrow> string" where
  "sub_from r f b [] = (case ms r b [] Map.empty of [] \<Rightarrow> [] | (m, s', c) # _ \<Rightarrow> f m c)"
| "sub_from r f b (x # xs) =
     (case ms r b (x # xs) Map.empty of
        [] \<Rightarrow> x # sub_from r f False xs
      | (m, s', c) # _ \<Rightarrow>
          (if length s' < length (x # xs) then f m c @ sub_from r f False s'
           else f m c @ x # sub_from r f False xs))"
  by pat_completeness auto
termination
  by (relation "measure (\<lambda>(r, f, b, s). length s)") auto

definition re_sub :: "re \<Rightarrow> (string \<Rightarrow> caps \<Rightarrow> string) \<Rightarrow> string \<Rightarrow> string" where
  "re_sub r f s = sub_from r f True s"

text \<open>The classes used by the patterns.\<close>

definition not_chr :: "char \<Rightarrow> char \<Rightarrow> bool" where
  "not_chr x c = (c \<noteq> x)"

definition dot :: "char \<Rightarrow> bool" where
  "dot c = (c \<noteq> CHR 0x0A)"

text \<open>
  The string of an optional value that is present, the value of a group that takes part
  in every match of its pattern, and the truth value of an optional string (\<open>None\<close> and the empty string are false).
\<close>

definition str_of :: "string option \<Rightarrow> string" where
  "str_of a = (case a of None \<Rightarrow> [] | Some g \<Rightarrow> g)"

definition group :: "caps \<Rightarrow> nat \<Rightarrow> string" where
  "group c n = str_of (c n)"

definition truthy :: "string option \<Rightarrow> bool" where
  "truthy a = (case a of None \<Rightarrow> False | Some s \<Rightarrow> s \<noteq> [])"

section \<open>export_docx.py\<close>

text \<open>
  \<open>FILES\<close> is the registry of unit names of both scripts. The link functions take the
  registry as their first argument; the scripts pass this constant.
\<close>

definition FILES :: "string list" where
  "FILES = [''introduction.md'', ''validity.md'', ''democratization.md'',
     ''responsibility.md'', ''conclusion.md'', ''references.md'']"

text \<open>The pattern \<^verbatim>\<open>\[([^\]]+)\]\(([^)]+)\)(\s*\{ *#[^}]+\})?\<close> of \<open>process_links\<close>.\<close>

definition export_link_pattern :: re where
  "export_link_pattern =
     Seq (Lit ''['') (Seq (Grp 1 (Many (not_chr CHR '']'') 1)) (Seq (Lit '']('')
    (Seq (Grp 2 (Many (not_chr CHR '')'') 1)) (Seq (Lit '')'')
    (Opt (Grp 3 (Seq (Many is_space 0) (Seq (Lit ''{'') (Seq (Many (\<lambda>c. c = CHR '' '') 0)
         (Seq (Lit ''#'') (Seq (Many (not_chr CHR ''}'') 1) (Lit ''}''))))))))))))"

definition export_replace_link :: "string list \<Rightarrow> string \<Rightarrow> string \<Rightarrow> caps \<Rightarrow> string" where
  "export_replace_link files current_file m c =
    (let text0 = group c 1; url = group c 2; attr = c 3;
         text = (if truthy attr then text0 @ '' '' @ strip (str_of attr) else text0);
         parts = split CHR ''#'' url;
         filename = (case parts of [] \<Rightarrow> [] | p # _ \<Rightarrow> p);
         anchor = (if length parts > 1 then Some (parts ! 1) else None)
     in
       if contains ''.md'' url \<and> \<not> startswith url ''http'' \<and> filename \<in> set files then
         (if filename = current_file then
            (if truthy anchor then ''['' @ text @ ''](#'' @ str_of anchor @ '')''
             else ''['' @ text @ ''](#'' @ lower (replace ''.'' ''-'' filename) @ '')'')
          else
            (if truthy anchor
             then ''['' @ text @ ''](#'' @ replace ''.'' ''_'' filename @ ''__'' @ str_of anchor @ '')''
             else ''['' @ text @ ''](#'' @ replace ''.'' ''_'' filename @ '')''))
       else if truthy attr then ''['' @ text @ '']('' @ url @ '')''
       else m)"

definition process_links :: "string list \<Rightarrow> string \<Rightarrow> string \<Rightarrow> string" where
  "process_links files content current_file =
     re_sub export_link_pattern (export_replace_link files current_file) content"

text \<open>
  The patterns \<^verbatim>\<open><input[^>]+id="(cb-[^"]+)"[^>]*>\<close> and
  \<^verbatim>\<open><input[^>]+name="(pledge_[^"]+)"[^>]*>\<close> of \<open>process_checkboxes\<close>, both replaced
  by the template \<^verbatim>\<open>[\1]\<close>.
\<close>

definition cb_input_pattern :: re where
  "cb_input_pattern =
     Seq (Lit ''<input'') (Seq (Many (not_chr CHR ''>'') 1) (Seq (Lit (''id='' @ [CHR 0x22]))
    (Seq (Grp 1 (Seq (Lit ''cb-'') (Many (not_chr (CHR 0x22)) 1))) (Seq (Lit [CHR 0x22])
    (Seq (Many (not_chr CHR ''>'') 0) (Lit ''>''))))))"

definition pledge_input_pattern :: re where
  "pledge_input_pattern =
     Seq (Lit ''<input'') (Seq (Many (not_chr CHR ''>'') 1) (Seq (Lit (''name='' @ [CHR 0x22]))
    (Seq (Grp 1 (Seq (Lit ''pledge_'') (Many (not_chr (CHR 0x22)) 1))) (Seq (Lit [CHR 0x22])
    (Seq (Many (not_chr CHR ''>'') 0) (Lit ''>''))))))"

definition bracket_group1 :: "string \<Rightarrow> caps \<Rightarrow> string" where
  "bracket_group1 m c = ''['' @ group c 1 @ '']''"

definition process_checkboxes :: "string \<Rightarrow> string" where
  "process_checkboxes content =
     re_sub pledge_input_pattern bracket_group1 (re_sub cb_input_pattern bracket_group1 content)"

definition escape_html :: "string \<Rightarrow> string" where
  "escape_html content = replace ''>'' ''&gt;'' (replace ''<'' ''&lt;'' content)"

text \<open>
  \<open>unindent_blocks\<close>: the patterns \<^verbatim>\<open>^\s*///\s+\w+\<close> and \<^verbatim>\<open>^\s*///\s*$\<close>, the body
  of the loop over the lines as a step on the pair of \<open>new_lines\<close> and \<open>stack_depth\<close>
  (a Python integer), and the loop itself.
\<close>

definition export_block_start_pattern :: re where
  "export_block_start_pattern =
     Seq Bol (Seq (Many is_space 0) (Seq (Lit ''///'') (Seq (Many is_space 1) (Many is_word 1))))"

definition block_end_pattern :: re where
  "block_end_pattern =
     Seq Bol (Seq (Many is_space 0) (Seq (Lit ''///'') (Seq (Many is_space 0) Eol)))"

definition is_metadata_or_input :: "string \<Rightarrow> bool" where
  "is_metadata_or_input stripped_line =
     (startswith stripped_line ''type:'' \<or> startswith stripped_line ''open:''
      \<or> startswith stripped_line ''<input'' \<or> startswith stripped_line ''[cb-''
      \<or> startswith stripped_line ''[pledge_'')"

definition unindent_step :: "string list \<times> int \<Rightarrow> string \<Rightarrow> string list \<times> int" where
  "unindent_step st line =
    (let new_lines = fst st; stack_depth = snd st;
         current_indent = int (length line) - int (length (lstrip_spaces line))
     in
       if re_match export_block_start_pattern line \<noteq> None then
         (new_lines @ [strip line, []], stack_depth + 1)
       else if re_match block_end_pattern line \<noteq> None then
         (let d = stack_depth - 1;
              d' = (if d < 0 then 0 else d)
          in (new_lines @ [strip line, []], d'))
       else
         (let indent_to_remove = stack_depth * 4;
              processed_line =
                (if current_indent \<ge> indent_to_remove then slice_from indent_to_remove line
                 else if strip line = [] then []
                 else lstrip line);
              stripped_line = strip processed_line
          in if is_metadata_or_input stripped_line
             then (new_lines @ [processed_line, []], stack_depth)
             else (new_lines @ [processed_line], stack_depth)))"

definition unindent_loop :: "string list \<Rightarrow> string list \<times> int" where
  "unindent_loop lines = foldl unindent_step ([], 0) lines"

definition unindent_blocks :: "string \<Rightarrow> string" where
  "unindent_blocks content = join [CHR 0x0A] (fst (unindent_loop (split (CHR 0x0A) content)))"

section \<open>import_docx.py\<close>

datatype error = IndexError | ConverterError | FileNotFoundError | NotADirectoryError
  | IsADirectoryError | PermissionError | OSError

text \<open>
  The pre-pass of \<open>process_content\<close>: a line whose stripped form ends with the end
  marker, is not the marker alone, and matches \<^verbatim>\<open>\s///\s*$\<close> somewhere is cut at the
  last occurrence of the marker.
\<close>

definition trailing_tag_pattern :: re where
  "trailing_tag_pattern = Seq (One is_space) (Seq (Lit ''///'') (Seq (Many is_space 0) Eol))"

definition split_line :: "string \<Rightarrow> string list" where
  "split_line line =
     (let stripped = strip line in
      if endswith stripped ''///'' \<and> stripped \<noteq> ''///'' then
        (if re_search trailing_tag_pattern line \<noteq> None then
           (let idx = rfind ''///'' line in [slice_to idx line, slice_from idx line])
         else [line])
      else [line])"

definition split_lines :: "string \<Rightarrow> string list" where
  "split_lines content = concat (map split_line (split (CHR 0x0A) content))"

text \<open>
  \<open>clean_buffer\<close>: the leading blank lines are dropped, then the loop over the index
  \<open>i\<close> with its look-ahead \<open>find_next_non_blank\<close>.
\<close>

function find_next_non_blank :: "string list \<Rightarrow> nat \<Rightarrow> (nat \<times> string) option" where
  "find_next_non_blank lines k =
     (if k < length lines \<and> strip (lines ! k) = [] then find_next_non_blank lines (Suc k)
      else if k < length lines then Some (k, lines ! k)
      else None)"
  by pat_completeness auto
termination
  by (relation "measure (\<lambda>(lines, k). length lines - k)") auto

declare find_next_non_blank.simps [simp del]

lemma find_next_non_blank_range:
  "find_next_non_blank lines k = Some (j, l) \<Longrightarrow> k \<le> j \<and> j < length lines"
proof (induction lines k rule: find_next_non_blank.induct)
  case (1 lines k)
  show ?case
  proof (cases "k < length lines \<and> strip (lines ! k) = []")
    case True
    with 1 have "Suc k \<le> j \<and> j < length lines"
      by (simp add: find_next_non_blank.simps [of lines k])
    then show ?thesis by simp
  next
    case False
    with "1.prems" show ?thesis
      by (auto simp: find_next_non_blank.simps [of lines k] split: if_splits)
  qed
qed

definition is_input :: "string \<Rightarrow> bool" where
  "is_input line = (contains ''<input'' line \<or> contains ''[cb-'' line \<or> contains ''[pledge_'' line)"

function clean_loop :: "string list \<Rightarrow> nat \<Rightarrow> string list \<Rightarrow> string list" where
  "clean_loop lines i cleaned =
     (if i < length lines then
        (let line = lines ! i in
         case find_next_non_blank lines (i + 1) of
           None \<Rightarrow> clean_loop lines (i + 1) (cleaned @ [line])
         | Some (next_idx, next_line) \<Rightarrow>
             if next_idx = 0 then clean_loop lines (i + 1) (cleaned @ [line])
             else if contains ''/// details'' line \<and> contains ''type:'' next_line then
               clean_loop lines next_idx (cleaned @ [line])
             else if contains ''type:'' line \<and> contains ''open:'' next_line then
               clean_loop lines (next_idx + 1) (cleaned @ [line, next_line])
             else if (contains ''type:'' line \<or> contains ''open:'' line)
                     \<and> strip next_line \<noteq> []
                     \<and> \<not> startswith (strip next_line) ''open:''
                     \<and> \<not> startswith (strip next_line) ''///'' then
               clean_loop lines (next_idx + 1) (cleaned @ [line, [], next_line])
             else if contains ''/// html'' line \<and> contains ''li'' line then
               clean_loop lines (i + 1)
                 (if i + 1 < length lines \<and> strip (lines ! (i + 1)) \<noteq> []
                  then cleaned @ [line, []] else cleaned @ [line])
             else if is_input line \<and> strip next_line \<noteq> [] \<and> next_idx > i + 1 then
               clean_loop lines (next_idx + 1) (cleaned @ [line, next_line])
             else clean_loop lines (i + 1) (cleaned @ [line]))
      else cleaned)"
  by pat_completeness auto
termination
  by (relation "measure (\<lambda>(lines, i, cleaned). length lines - i)")
     (auto dest!: find_next_non_blank_range)

declare clean_loop.simps [simp del]

definition clean_buffer :: "string list \<Rightarrow> string list" where
  "clean_buffer lines = clean_loop (dropWhile (\<lambda>l. strip l = []) lines) 0 []"

text \<open>
  The state of the main loop of \<open>process_content\<close>. \<open>files_content\<close> is a dict (its items
  in insertion order); \<open>indent_stack\<close> is a Python list used as a stack whose top is its
  last element, and reading the top of an empty list raises \<open>IndexError\<close>.
\<close>

record pc_state =
  files_content :: "(string \<times> string list) list"
  current_file :: "string option"
  current_buffer :: "string list"
  indent_stack :: "(nat \<times> string option) list"

definition stack_top :: "'a list \<Rightarrow> error + 'a" where
  "stack_top xs = (if xs = [] then Inl IndexError else Inr (last xs))"

definition spaces :: "nat \<Rightarrow> string" where
  "spaces n = replicate n (CHR '' '')"

text \<open>
  The patterns \<^verbatim>\<open>\*\*=== FILE: ([\w\.-]+) ===\*\*\<close> and \<^verbatim>\<open>^\s*///\s+(\w+)(.*)\<close>;
  the end pattern is the one of the export script.
\<close>

definition is_name_chr :: "char \<Rightarrow> bool" where
  "is_name_chr c = (is_word c \<or> c = CHR ''.'' \<or> c = CHR ''-'')"

definition file_marker_pattern :: re where
  "file_marker_pattern = Seq (Lit ''**=== FILE: '') (Seq (Grp 1 (Many is_name_chr 1)) (Lit '' ===**''))"

definition import_block_start_pattern :: re where
  "import_block_start_pattern =
     Seq Bol (Seq (Many is_space 0) (Seq (Lit ''///'') (Seq (Many is_space 1)
    (Seq (Grp 1 (Many is_word 1)) (Grp 2 (Many dot 0))))))"

text \<open>Step 2 of the loop body: the escapes of the converter are undone.\<close>

definition unescape :: "string \<Rightarrow> string" where
  "unescape line0 =
    (let line1 = replace [CHR 0x5C, CHR ''|''] ''|'' line0;
         line2 = replace [CHR 0x5C, CHR ''<''] ''<'' line1;
         line3 = replace [CHR 0x5C, CHR ''>''] ''>'' line2;
         line4 = replace [CHR 0x5C, CHR ''_''] ''_'' line3;
         line5 = replace [CHR 0x5C, CHR ''[''] ''['' line4;
         line6 = replace [CHR 0x5C, CHR '']''] '']'' line5;
         line7 = replace [CHR 0xA0] '' '' line6
     in if endswith line7 [CHR 0x5C] then slice_to (- 1) line7 else line7)"

definition save_buffer :: "pc_state \<Rightarrow> (string \<times> string list) list" where
  "save_buffer st =
     (if truthy (current_file st)
      then AList.update (str_of (current_file st)) (clean_buffer (current_buffer st)) (files_content st)
      else files_content st)"

definition new_indent_of :: "nat \<Rightarrow> string \<Rightarrow> string \<Rightarrow> nat" where
  "new_indent_of tag_indent block_type rest_of_tag =
     (if block_type = ''html'' then
        (if contains ''ul.tasklist'' rest_of_tag then tag_indent + 2
         else if contains ''li'' rest_of_tag then tag_indent + 2
         else tag_indent + 4)
      else if block_type = ''details'' then tag_indent + 0
      else tag_indent + 4)"

definition content_line :: "nat \<Rightarrow> string option \<Rightarrow> string \<Rightarrow> string" where
  "content_line current_indent current_block_type line =
     (if current_block_type = Some ''details'' then
        (let stripped = strip line in
         if startswith stripped ''type:'' \<or> startswith stripped ''open:''
         then spaces (current_indent + 4) @ line
         else spaces current_indent @ line)
      else if strip line = [] then []
      else
        (let stripped_line = lstrip line in
         if current_block_type = Some ''details''
            \<and> (startswith stripped_line ''type:'' \<or> startswith stripped_line ''open:'')
         then spaces (current_indent + 4) @ stripped_line
         else spaces current_indent @ stripped_line))"

definition process_line :: "pc_state \<Rightarrow> string \<Rightarrow> error + pc_state" where
  "process_line st line0 =
    (case re_search file_marker_pattern line0 of
       Some (m, rest, c) \<Rightarrow>
         Inr (st\<lparr>files_content := save_buffer st, current_file := Some (group c 1),
                 current_buffer := [], indent_stack := [(0, None)]\<rparr>)
     | None \<Rightarrow>
        (case current_file st of
           None \<Rightarrow> Inr st
         | Some f \<Rightarrow>
            (let line = unescape line0;
                 is_start = re_match import_block_start_pattern line;
                 is_end = re_match block_end_pattern line
             in case stack_top (indent_stack st) of
                  Inl e \<Rightarrow> Inl e
                | Inr (current_indent, current_block_type) \<Rightarrow>
                   (case is_start of
                      Some (m, rest, c) \<Rightarrow>
                        (let block_type = group c 1;
                             rest_of_tag = group c 2;
                             tag_indent = current_indent;
                             indented_line = spaces tag_indent @ line;
                             new_indent = new_indent_of tag_indent block_type rest_of_tag
                         in Inr (st\<lparr>current_buffer := current_buffer st @ [indented_line],
                                    indent_stack := indent_stack st @ [(new_indent, Some block_type)]\<rparr>))
                    | None \<Rightarrow>
                        if is_end \<noteq> None then
                          (let stack = (if length (indent_stack st) > 1
                                        then butlast (indent_stack st) else indent_stack st)
                           in case stack_top stack of
                                Inl e \<Rightarrow> Inl e
                              | Inr (parent_indent, _) \<Rightarrow>
                                  Inr (st\<lparr>current_buffer := current_buffer st @ [spaces parent_indent @ line],
                                         indent_stack := stack\<rparr>))
                        else
                          Inr (st\<lparr>current_buffer := current_buffer st
                                   @ [content_line current_indent current_block_type line]\<rparr>)))))"

fun run_lines :: "pc_state \<Rightarrow> string list \<Rightarrow> error + pc_state" where
  "run_lines st [] = Inr st"
| "run_lines st (l # ls) = (case process_line st l of Inl e \<Rightarrow> Inl e | Inr st' \<Rightarrow> run_lines st' ls)"

definition initial_state :: pc_state where
  "initial_state = \<lparr>files_content = [], current_file = None, current_buffer = [],
                     indent_stack = [(0, None)]\<rparr>"

definition process_content :: "string \<Rightarrow> error + (string \<times> string list) list" where
  "process_content content =
     (case run_lines initial_state (split_lines content) of
        Inl e \<Rightarrow> Inl e
      | Inr st \<Rightarrow> Inr (save_buffer st))"

text \<open>
  \<open>restore_links\<close>: the pattern \<^verbatim>\<open>\[([^\]]+)\]\(#([\w\.-]+)\)\<close>, the search of the
  registry for the unit encoded in an anchor, and the replacement. The argument
  \<open>anchor_map\<close> is not used by the source and is left out.
\<close>

definition import_link_pattern :: re where
  "import_link_pattern =
     Seq (Lit ''['') (Seq (Grp 1 (Many (not_chr CHR '']'') 1)) (Seq (Lit ''](#'')
    (Seq (Grp 2 (Many is_name_chr 1)) (Lit '')''))))"

fun find_target :: "string list \<Rightarrow> string \<Rightarrow> string option \<times> string option" where
  "find_target [] anchor = (None, None)"
| "find_target (filename # files) anchor =
     (let safe_filename = replace ''.'' ''_'' filename in
      if anchor = safe_filename then (Some filename, None)
      else if startswith anchor (safe_filename @ ''__'')
        then (Some filename, Some (slice_from (int (length safe_filename) + 2) anchor))
      else find_target files anchor)"

definition import_replace_link :: "string list \<Rightarrow> string \<Rightarrow> string \<Rightarrow> caps \<Rightarrow> string" where
  "import_replace_link files current_file' m c =
    (let text = group c 1; anchor = group c 2;
         target_file = fst (find_target files anchor);
         real_anchor = snd (find_target files anchor)
     in
       if truthy target_file then
         (if str_of target_file = current_file' then
            (if truthy real_anchor then ''['' @ text @ ''](#'' @ str_of real_anchor @ '')''
             else ''['' @ text @ ''](#)'')
          else
            (if truthy real_anchor
             then ''['' @ text @ '']('' @ str_of target_file @ ''#'' @ str_of real_anchor @ '')''
             else ''['' @ text @ '']('' @ str_of target_file @ '')''))
       else m)"

definition restore_links :: "string list \<Rightarrow> string list \<Rightarrow> string \<Rightarrow> string list" where
  "restore_links files content_lines current_file' =
     map (re_sub import_link_pattern (import_replace_link files current_file')) content_lines"

text \<open>\<open>restore_attributes\<close>: the pattern \<^verbatim>\<open>\[(.*?) \{ *(#[^}]+) *\}\]\(([^)]+)\)\<close>.\<close>

definition attribute_pattern :: re where
  "attribute_pattern =
     Seq (Lit ''['') (Seq (Grp 1 (Few dot 0)) (Seq (Lit '' {'') (Seq (Many (\<lambda>c. c = CHR '' '') 0)
    (Seq (Grp 2 (Seq (Lit ''#'') (Many (not_chr CHR ''}'') 1))) (Seq (Many (\<lambda>c. c = CHR '' '') 0)
    (Seq (Lit ''}]('') (Seq (Grp 3 (Many (not_chr CHR '')'') 1)) (Lit '')''))))))))"

definition replace_attribute :: "string \<Rightarrow> caps \<Rightarrow> string" where
  "replace_attribute m c =
    (let text = group c 1; attr = strip (group c 2); url = group c 3
     in ''['' @ text @ '']('' @ url @ ''){ '' @ attr @ '' }'')"

definition restore_attributes :: "string list \<Rightarrow> string list" where
  "restore_attributes lines = map (re_sub attribute_pattern replace_attribute) lines"

text \<open>
  \<open>restore_checkboxes\<close>: the patterns \<^verbatim>\<open>\[(cb-[^\]]+)\]\<close> and \<^verbatim>\<open>\[(pledge_[^\]]+)\]\<close>
  and the two elements written back.
\<close>

definition cb_pattern :: re where
  "cb_pattern = Seq (Lit ''['') (Seq (Grp 1 (Seq (Lit ''cb-'') (Many (not_chr CHR '']'') 1))) (Lit '']''))"

definition pledge_pattern :: re where
  "pledge_pattern = Seq (Lit ''['') (Seq (Grp 1 (Seq (Lit ''pledge_'') (Many (not_chr CHR '']'') 1))) (Lit '']''))"

definition cb_element :: "string \<Rightarrow> string" where
  "cb_element cb_id =
     ''<input type='' @ [CHR 0x27] @ ''checkbox'' @ [CHR 0x27] @ '' checked id='' @ [CHR 0x22]
     @ cb_id @ [CHR 0x22] @ '' class='' @ [CHR 0x22] @ ''cb-sa'' @ [CHR 0x22]
     @ '' onchange='' @ [CHR 0x22] @ ''toggleCheckboxes(event)'' @ [CHR 0x22] @ ''/>''"

definition pledge_element :: "string \<Rightarrow> string" where
  "pledge_element pledge_name =
     ''<input type='' @ [CHR 0x27] @ ''checkbox'' @ [CHR 0x27] @ '' checked name='' @ [CHR 0x22]
     @ pledge_name @ [CHR 0x22] @ '' class='' @ [CHR 0x22] @ ''data-input'' @ [CHR 0x22] @ '' />''"

definition replace_cb :: "string \<Rightarrow> caps \<Rightarrow> string" where
  "replace_cb m c = cb_element (group c 1)"

definition replace_pledge :: "string \<Rightarrow> caps \<Rightarrow> string" where
  "replace_pledge m c = pledge_element (group c 1)"

definition restore_checkbox_line :: "string \<Rightarrow> string" where
  "restore_checkbox_line line0 =
    (let line1 = (if re_search cb_pattern line0 \<noteq> None then re_sub cb_pattern replace_cb line0
                  else line0)
     in if re_search pledge_pattern line1 \<noteq> None then re_sub pledge_pattern replace_pledge line1
        else line1)"

definition restore_checkboxes :: "string list \<Rightarrow> string list" where
  "restore_checkboxes lines = map restore_checkbox_line lines"

text \<open>
  \<open>main\<close> of the import script. The converter and the file system are outside the
  program. The result of the converter, the text or an exception, is an argument. The
  disk is a table from paths to nodes, a file with its text or a directory, together
  with what the environment decides: the paths that the process may not open for
  writing (\<open>denied\<close>) and, for a path, how many characters the device takes before it
  refuses the rest (\<open>quota\<close>, \<open>None\<close> for no limit). Paths are compared as strings; the
  empty path stands for the directory the script runs in.

  \<open>open_w\<close> is \<^verbatim>\<open>open(path, 'w')\<close>: it raises when the path is empty, when its directory is missing
  or is a file, when the path names a directory (so for the names \<^verbatim>\<open>.\<close> and \<^verbatim>\<open>..\<close>), or when
  the path is denied, and leaves the disk as it was; otherwise the file exists and is
  empty from then on. \<open>f_write\<close> is \<^verbatim>\<open>f.write(text)\<close> with the closing of the file: it
  stores the text, or the part of it that the device takes and then raises.
  \<open>write_file\<close> is the \<^verbatim>\<open>with\<close> statement made of the two.
\<close>

datatype node = File string | Dir

record disk =
  nodes :: "string \<Rightarrow> node option"
  denied :: "string \<Rightarrow> bool"
  quota :: "string \<Rightarrow> nat option"

definition parent :: "string \<Rightarrow> string" where
  "parent p = (if CHR ''/'' \<in> set p then rev (tl (dropWhile (\<lambda>c. c \<noteq> CHR ''/'') (rev p))) else [])"

definition basename :: "string \<Rightarrow> string" where
  "basename p = rev (takeWhile (\<lambda>c. c \<noteq> CHR ''/'') (rev p))"

definition is_dir :: "disk \<Rightarrow> string \<Rightarrow> bool" where
  "is_dir d p = (p = [] \<or> nodes d p = Some Dir
                 \<or> ((basename p = ''.'' \<or> basename p = ''..'')
                     \<and> (parent p = [] \<or> nodes d (parent p) = Some Dir)))"

definition open_w :: "disk \<Rightarrow> string \<Rightarrow> error + disk" where
  "open_w d p =
     (if p = [] then Inl FileNotFoundError
      else if \<not> is_dir d (parent p)
      then Inl (if nodes d (parent p) = None then FileNotFoundError else NotADirectoryError)
      else if is_dir d p then Inl IsADirectoryError
      else if denied d p then Inl PermissionError
      else Inr (d\<lparr>nodes := (nodes d)(p \<mapsto> File [])\<rparr>))"

definition f_write :: "disk \<Rightarrow> string \<Rightarrow> string \<Rightarrow> error option \<times> disk" where
  "f_write d p s =
     (case quota d p of
        Some n \<Rightarrow>
          if n < length s then (Some OSError, d\<lparr>nodes := (nodes d)(p \<mapsto> File (take n s))\<rparr>)
          else (None, d\<lparr>nodes := (nodes d)(p \<mapsto> File s)\<rparr>)
      | None \<Rightarrow> (None, d\<lparr>nodes := (nodes d)(p \<mapsto> File s)\<rparr>))"

definition write_file :: "disk \<Rightarrow> string \<Rightarrow> string \<Rightarrow> error option \<times> disk" where
  "write_file d p s = (case open_w d p of Inl e \<Rightarrow> (Some e, d) | Inr d1 \<Rightarrow> f_write d1 p s)"

definition DOCS_DIR :: string where
  "DOCS_DIR = ''docs''"

definition path_join :: "string \<Rightarrow> string \<Rightarrow> string" where
  "path_join dir name =
     (if startswith name ''/'' then name
      else if dir = [] \<or> endswith dir ''/'' then dir @ name
      else dir @ ''/'' @ name)"

definition blank_run_pattern :: re where
  "blank_run_pattern = Many (\<lambda>c. c = CHR 0x0A) 3"

definition two_newlines :: "string \<Rightarrow> caps \<Rightarrow> string" where
  "two_newlines m c = [CHR 0x0A, CHR 0x0A]"

definition restore_unit :: "string \<Rightarrow> string list \<Rightarrow> string" where
  "restore_unit filename lines0 =
    (let lines1 = restore_links FILES lines0 filename;
         lines2 = restore_attributes lines1;
         lines3 = restore_checkboxes lines2;
         file_content = join [CHR 0x0A] lines3
     in re_sub blank_run_pattern two_newlines file_content)"

text \<open>
  The run of \<open>main\<close>: the first write is the debug copy of the converted text; then
  \<open>process_content\<close> rebuilds the buffers of all units (\<open>build_anchor_map\<close>, called before
  it, only builds a table that no later step reads); then the loop takes the units in
  the order of the table: it decodes one unit (\<open>restore_unit\<close> is the text
  \<open>file_content\<close>), opens its file and writes it, and only then turns to the next
  unit. \<open>write_unit\<close> is one iteration. Nothing catches an exception: the first one
  ends the run, and the result is that exception with the disk as it is at that
  moment. The messages printed are left out.
\<close>

definition filepath :: "string \<Rightarrow> string" where
  "filepath filename = path_join DOCS_DIR filename"

definition write_unit :: "disk \<Rightarrow> string \<times> string list \<Rightarrow> error option \<times> disk" where
  "write_unit d item = write_file d (filepath (fst item)) (restore_unit (fst item) (snd item))"

fun import_loop :: "disk \<Rightarrow> (string \<times> string list) list \<Rightarrow> error option \<times> disk" where
  "import_loop d [] = (None, d)"
| "import_loop d (item # items) =
     (case write_unit d item of
        (Some e, d1) \<Rightarrow> (Some e, d1)
      | (None, d1) \<Rightarrow> import_loop d1 items)"

definition import_main :: "error + string \<Rightarrow> disk \<Rightarrow> error option \<times> disk" where
  "import_main converted d =
    (case converted of
       Inl e \<Rightarrow> (Some e, d)
     | Inr content \<Rightarrow>
        (case write_file d ''debug_import_full.md'' content of
           (Some e, d1) \<Rightarrow> (Some e, d1)
         | (None, d1) \<Rightarrow>
            (case process_content content of
               Inl e \<Rightarrow> (Some e, d1)
             | Inr items \<Rightarrow> import_loop d1 items)))"

section \<open>export_to_sheets.py\<close>

definition EXCLUDED_COLUMNS :: "string list" where
  "EXCLUDED_COLUMNS = [''show_name'', ''created_at'', ''first_name'', ''last_name'',
     ''affiliation'', ''email'', ''orcid'', ''comment'']"

text \<open>
  A record of the table is a Python dict: its items in insertion order, the keys distinct.
  \<open>anonymize_data\<close> returns the empty list for empty data and otherwise rebuilds every row
  from the items whose key is not excluded.
\<close>

type_synonym 'v row = "(string \<times> 'v) list"

definition anonymize_data :: "'v row list \<Rightarrow> 'v row list" where
  "anonymize_data data =
     (if data = [] then []
      else map (\<lambda>row. filter (\<lambda>(k, v). k \<notin> set EXCLUDED_COLUMNS) row) data)"

definition sample_row :: "string row" where
  "sample_row = [(''id'', ''7''), (''email'', ''a@b.org''), (''gender'', ''f''), (''comment'', ''hi'')]"

definition sample_state :: pc_state where
  "sample_state = \<lparr>files_content = [], current_file = Some ''a.md'',
                    current_buffer = [''/// html | div''],
                    indent_stack = [(0, None), (4, Some ''html'')]\<rparr>"

definition details_state :: pc_state where
  "details_state = \<lparr>files_content = [], current_file = Some ''a.md'',
                    current_buffer = [''    /// details | T''],
                    indent_stack = [(0, None), (4, Some ''html''), (4, Some ''details'')]\<rparr>"

text \<open>The invariant of the stack of \<open>process_content\<close>, and states for the examples.\<close>

definition seeded :: "pc_state \<Rightarrow> bool" where
  "seeded st = (indent_stack st \<noteq> [] \<and> hd (indent_stack st) = (0, None))"

definition unit_state :: pc_state where
  "unit_state = \<lparr>files_content = [], current_file = Some ''a.md'', current_buffer = [],
                  indent_stack = [(0, None)]\<rparr>"

text \<open>The optional last part of the link pattern of the export, the annotation.\<close>

definition annotation_re :: re where
  "annotation_re = Grp 3 (Seq (Many is_space 0) (Seq (Lit ''{'') (Seq (Many (\<lambda>c. c = CHR '' '') 0)
         (Seq (Lit ''#'') (Seq (Many (not_chr CHR ''}'') 1) (Lit ''}''))))))"

text \<open>A converted document of two units, for the examples.\<close>

definition sample_doc :: string where
  "sample_doc = ''**=== FILE: introduction.md ===** {#introduction-md}'' @ [CHR 0x0A] @ ''hello''
     @ [CHR 0x0A] @ ''**=== FILE: validity.md ===** {#validity-md}'' @ [CHR 0x0A]
     @ ''[T](#introduction_md__x)''"

text \<open>
  A converted document whose second unit is named \<^verbatim>\<open>..\<close>, a disk that holds the
  directory of the units with two of them, and the same disk with room for nine
  characters of the second unit.
\<close>

definition dotted_doc :: string where
  "dotted_doc = ''**=== FILE: introduction.md ===** {#introduction-md}'' @ [CHR 0x0A] @ ''hello''
     @ [CHR 0x0A] @ ''**=== FILE: .. ===** {#--}'' @ [CHR 0x0A] @ ''x''"

definition docs_disk :: disk where
  "docs_disk = \<lparr>nodes = [''docs'' \<mapsto> Dir, ''docs/introduction.md'' \<mapsto> File ''old'',
                           ''docs/validity.md'' \<mapsto> File ''old''],
                 denied = (\<lambda>p. False), quota = (\<lambda>p. None)\<rparr>"

definition full_disk :: disk where
  "full_disk = docs_disk\<lparr>quota := [''docs/validity.md'' \<mapsto> 9]\<rparr>"

text \<open>
  What the file of a unit can hold after a run: the decoded text of the unit, a proper
  beginning of it, or what it held before.
\<close>

definition written :: "disk \<Rightarrow> string \<times> string list \<Rightarrow> bool" where
  "written d item = (nodes d (filepath (fst item)) = Some (File (restore_unit (fst item) (snd item))))"

definition cut_short :: "disk \<Rightarrow> string \<times> string list \<Rightarrow> bool" where
  "cut_short d item =
     (let file_content = restore_unit (fst item) (snd item) in
      case nodes d (filepath (fst item)) of
        Some (File s) \<Rightarrow> length s < length file_content \<and> take (length s) file_content = s
      | _ \<Rightarrow> False)"

definition untouched :: "disk \<Rightarrow> disk \<Rightarrow> string \<times> string list \<Rightarrow> bool" where
  "untouched d d' item = (nodes d' (filepath (fst item)) = nodes d (filepath (fst item)))"

text \<open>
  For the proofs about the input elements: the characters that every match of a pattern
  contains, the common shape of the two patterns of \<open>process_checkboxes\<close>, and the fixed
  parts of the two elements written by \<open>restore_checkboxes\<close>.
\<close>

fun needs :: "re \<Rightarrow> char set" where
  "needs (Lit l) = set l"
| "needs (Seq r1 r2) = needs r1 \<union> needs r2"
| "needs (Grp n r) = needs r"
| "needs r = {}"

definition input_pattern :: "string \<Rightarrow> string \<Rightarrow> re" where
  "input_pattern la lp =
     Seq (Lit ''<input'') (Seq (Many (not_chr CHR ''>'') 1) (Seq (Lit la)
    (Seq (Grp 1 (Seq (Lit lp) (Many (not_chr (CHR 0x22)) 1))) (Seq (Lit [CHR 0x22])
    (Seq (Many (not_chr CHR ''>'') 0) (Lit ''>''))))))"

definition attr_prefix :: string where
  "attr_prefix = '' type='' @ [CHR 0x27] @ ''checkbox'' @ [CHR 0x27] @ '' checked ''"

definition cb_tail :: string where
  "cb_tail = '' class='' @ [CHR 0x22] @ ''cb-sa'' @ [CHR 0x22] @ '' onchange='' @ [CHR 0x22]
     @ ''toggleCheckboxes(event)'' @ [CHR 0x22] @ ''/''"

definition pledge_tail :: string where
  "pledge_tail = '' class='' @ [CHR 0x22] @ ''data-input'' @ [CHR 0x22] @ '' /''"

section \<open>Anonymized export\<close>

lemma map_of_anonymize_row:
  "map_of (filter (\<lambda>(k, v). k \<notin> set EXCLUDED_COLUMNS) row) k =
     (if k \<in> set EXCLUDED_COLUMNS then None else map_of row k)"
  by (induction row) auto

lemma anonymize_data_nth:
  "i < length data \<Longrightarrow>
   anonymize_data data ! i = filter (\<lambda>(k, v). k \<notin> set EXCLUDED_COLUMNS) (data ! i)"
  by (auto simp: anonymize_data_def)

lemma anonymize_data_length: "length (anonymize_data data) = length data"
  by (simp add: anonymize_data_def)

text \<open>
  Claim C10. Every record returned by \<open>anonymize_data\<close> has none of the keys of
  \<open>EXCLUDED_COLUMNS\<close> and gives every other key the value of the input record; so two
  inputs whose records agree on all keys that are not excluded give the same records
  (as dicts): an excluded field has no influence on the result.
\<close>

theorem anonymize_data_noninterference:
  "length (anonymize_data data) = length data
   \<and> (\<forall>i < length data. \<forall>k.
         (k \<in> set EXCLUDED_COLUMNS \<longrightarrow> k \<notin> fst ` set (anonymize_data data ! i))
       \<and> (k \<notin> set EXCLUDED_COLUMNS \<longrightarrow>
             map_of (anonymize_data data ! i) k = map_of (data ! i) k))
   \<and> (\<forall>data'. length data' = length data
         \<and> (\<forall>i < length data. \<forall>k. k \<notin> set EXCLUDED_COLUMNS \<longrightarrow>
                map_of (data' ! i) k = map_of (data ! i) k)
       \<longrightarrow> map map_of (anonymize_data data') = map map_of (anonymize_data data))"
proof (intro conjI allI impI)
  show "length (anonymize_data data) = length data" by (rule anonymize_data_length)
next
  fix i k assume "i < length data" "k \<in> set EXCLUDED_COLUMNS"
  then show "k \<notin> fst ` set (anonymize_data data ! i)"
    by (auto simp: anonymize_data_nth)
next
  fix i k assume "i < length data" "k \<notin> set EXCLUDED_COLUMNS"
  then show "map_of (anonymize_data data ! i) k = map_of (data ! i) k"
    by (simp add: anonymize_data_nth map_of_anonymize_row)
next
  fix data' :: "'a row list"
  assume h: "length data' = length data
         \<and> (\<forall>i < length data. \<forall>k. k \<notin> set EXCLUDED_COLUMNS \<longrightarrow>
                map_of (data' ! i) k = map_of (data ! i) k)"
  show "map map_of (anonymize_data data') = map map_of (anonymize_data data)"
  proof (rule nth_equalityI)
    show "length (map map_of (anonymize_data data')) = length (map map_of (anonymize_data data))"
      using h by (simp add: anonymize_data_length)
  next
    fix i assume "i < length (map map_of (anonymize_data data'))"
    then have i: "i < length data" "i < length data'" using h by (simp_all add: anonymize_data_length)
    have "map_of (anonymize_data data' ! i) = map_of (anonymize_data data ! i)"
    proof
      fix k show "map_of (anonymize_data data' ! i) k = map_of (anonymize_data data ! i) k"
        using h i by (simp add: anonymize_data_nth map_of_anonymize_row)
    qed
    then show "map map_of (anonymize_data data') ! i = map map_of (anonymize_data data) ! i"
      using i by (simp add: anonymize_data_length)
  qed
qed

theorem anonymize_data_noninterference_witness:
  "anonymize_data [sample_row] = [[(''id'', ''7''), (''gender'', ''f'')]]
   \<and> ''email'' \<in> set EXCLUDED_COLUMNS
   \<and> ''email'' \<notin> fst ` set (anonymize_data [sample_row] ! 0)
   \<and> ''gender'' \<notin> set EXCLUDED_COLUMNS
   \<and> map_of (anonymize_data [sample_row] ! 0) ''gender'' = map_of ([sample_row] ! 0) ''gender''
   \<and> map map_of (anonymize_data [[(''email'', ''x@y.org''), (''id'', ''7''), (''gender'', ''f'')]])
       = map map_of (anonymize_data [sample_row])"
proof -
  have e: "''email'' \<in> set EXCLUDED_COLUMNS" "''gender'' \<notin> set EXCLUDED_COLUMNS"
    by (simp_all add: EXCLUDED_COLUMNS_def)
  have v: "anonymize_data [sample_row] = [[(''id'', ''7''), (''gender'', ''f'')]]"
    by (simp add: anonymize_data_def sample_row_def EXCLUDED_COLUMNS_def)
  note t = anonymize_data_noninterference [of "[sample_row]"]
  have a: "''email'' \<notin> fst ` set (anonymize_data [sample_row] ! 0)"
    using t e by auto
  have b: "map_of (anonymize_data [sample_row] ! 0) ''gender'' = map_of ([sample_row] ! 0) ''gender''"
    using t e by auto
  have agree: "length [[(''email'', ''x@y.org''), (''id'', ''7''), (''gender'', ''f'')]] = length [sample_row]
     \<and> (\<forall>i < length [sample_row]. \<forall>k. k \<notin> set EXCLUDED_COLUMNS \<longrightarrow>
           map_of ([[(''email'', ''x@y.org''), (''id'', ''7''), (''gender'', ''f'')]] ! i) k
             = map_of ([sample_row] ! i) k)"
    by (auto simp: sample_row_def EXCLUDED_COLUMNS_def)
  have c: "map map_of (anonymize_data [[(''email'', ''x@y.org''), (''id'', ''7''), (''gender'', ''f'')]])
       = map map_of (anonymize_data [sample_row])"
    using t agree by blast
  show ?thesis using v e a b c by simp
qed


section \<open>Flattening: the content rule\<close>

lemma leading_spaces_count:
  "int (length line) - int (length (lstrip_spaces line))
     = int (length (takeWhile (\<lambda>c. c = CHR '' '') line))"
proof -
  have "length (takeWhile (\<lambda>c. c = CHR '' '') line) + length (dropWhile (\<lambda>c. c = CHR '' '') line)
          = length line"
    by (metis length_append takeWhile_dropWhile_id)
  then show ?thesis by (simp add: lstrip_spaces_def)
qed

text \<open>
  Claim C5. For a content line (neither a block start nor a block end) at nesting depth
  \<open>d\<close>, \<open>unindent_blocks\<close> strips \<open>4 * d\<close> columns: a line that begins with at least
  \<open>4 * d\<close> spaces is emitted without its first \<open>4 * d\<close> characters; otherwise a blank
  line is emitted blank and any other line without its leading whitespace. (A metadata
  or input line is followed by one blank separator line.) The depth is not changed.
\<close>

theorem unindent_content_rule:
  assumes "re_match export_block_start_pattern line = None"
    and "re_match block_end_pattern line = None"
    and "0 \<le> d"
  shows "unindent_step (new_lines, d) line =
     (let p = (if 4 * d \<le> int (length (takeWhile (\<lambda>c. c = CHR '' '') line))
               then drop (nat (4 * d)) line
               else if strip line = [] then []
               else dropWhile is_space line)
      in (new_lines @ [p] @ (if is_metadata_or_input (strip p) then [[]] else []), d))"
proof -
  have s: "slice_from (d * 4) line = drop (nat (4 * d)) line"
    using assms(3) by (simp add: slice_from_def mult.commute)
  have c: "(d * 4 \<le> int (length line) - int (length (lstrip_spaces line)))
         = (4 * d \<le> int (length (takeWhile (\<lambda>c. c = CHR '' '') line)))"
    by (simp add: leading_spaces_count mult.commute)
  show ?thesis
    using assms(1,2)
    by (simp only: unindent_step_def Let_def fst_conv snd_conv s c lstrip_def
                   if_False simp_thms split: if_split) auto
qed

theorem unindent_content_rule_witness:
  "re_match export_block_start_pattern ''      body'' = None
   \<and> re_match block_end_pattern ''      body'' = None
   \<and> (0::int) \<le> 1
   \<and> unindent_step ([''/// details'', []], 1) ''      body''
        = ([''/// details'', [], ''  body''], 1)
   \<and> unindent_step ([], 2) ''  type: x'' = ([''type: x'', []], 2)"
proof -
  have a: "re_match export_block_start_pattern ''      body'' = None" by code_simp
  have b: "re_match block_end_pattern ''      body'' = None" by code_simp
  have a': "re_match export_block_start_pattern ''  type: x'' = None" by code_simp
  have b': "re_match block_end_pattern ''  type: x'' = None" by code_simp
  have p: "strip ''  body'' = ''body''" "strip ''  type: x'' = ''type: x''"
     "dropWhile is_space ''  type: x'' = ''type: x''" "strip ''type: x'' = ''type: x''"
    by code_simp+
  have m: "\<not> is_metadata_or_input ''body''" "is_metadata_or_input ''type: x''" by code_simp+
  show ?thesis
    using unindent_content_rule [OF a b, of 1 "[''/// details'', []]"]
          unindent_content_rule [OF a' b', of 2 "[]"] a b p m
    by (simp add: Let_def)
qed

section \<open>Reconstruction: indentation of blocks\<close>

text \<open>
  Claim C6. For a block-start line met while the top frame of the stack has indent \<open>c\<close>
  (in a unit, on a line that is not a unit marker), \<open>process_content\<close> emits the line
  with \<open>c\<close> spaces put before it and pushes a frame of indent \<open>c\<close> plus an increment:
  2 for an \<open>html\<close> block whose parameter contains \<open>ul.tasklist\<close>, 2 for one whose
  parameter contains \<open>li\<close>, 4 for any other \<open>html\<close> block, 0 for a \<open>details\<close> block and 4
  for every other type. Inside a \<open>details\<close> block a content line whose stripped form
  starts with \<open>type:\<close> or \<open>open:\<close> gets \<open>c + 4\<close> spaces, any other content line \<open>c\<close>.
\<close>

theorem reconstruction_indent_increments:
  assumes "re_search file_marker_pattern line0 = None"
    and "current_file st = Some f"
    and "indent_stack st = stk @ [(c, bt)]"
  shows "(\<forall>m rest g. re_match import_block_start_pattern (unescape line0) = Some (m, rest, g) \<longrightarrow>
           process_line st line0 =
             Inr (st\<lparr>current_buffer := current_buffer st @ [spaces c @ unescape line0],
                     indent_stack := indent_stack st @
                       [(c + (if group g 1 = ''html''
                              then (if contains ''ul.tasklist'' (group g 2) then 2
                                    else if contains ''li'' (group g 2) then 2 else 4)
                              else if group g 1 = ''details'' then 0 else 4),
                         Some (group g 1))]\<rparr>))
       \<and> (re_match import_block_start_pattern (unescape line0) = None
            \<and> re_match block_end_pattern (unescape line0) = None
            \<and> bt = Some ''details'' \<longrightarrow>
           process_line st line0 =
             Inr (st\<lparr>current_buffer := current_buffer st @
                     [spaces (if startswith (strip (unescape line0)) ''type:''
                                 \<or> startswith (strip (unescape line0)) ''open:''
                              then c + 4 else c) @ unescape line0]\<rparr>))"
  using assms
  by (auto simp: process_line_def stack_top_def Let_def new_indent_of_def content_line_def)


theorem reconstruction_indent_increments_witness:
  "re_search file_marker_pattern ''/// html | ul.tasklist'' = None
   \<and> current_file sample_state = Some ''a.md''
   \<and> indent_stack sample_state = [(0, None)] @ [(4, Some ''html'')]
   \<and> process_line sample_state ''/// html | ul.tasklist'' =
       Inr (sample_state\<lparr>current_buffer := [''/// html | div'', ''    /// html | ul.tasklist''],
              indent_stack := [(0, None), (4, Some ''html''), (6, Some ''html'')]\<rparr>)
   \<and> process_line details_state ''type: info'' =
       Inr (details_state\<lparr>current_buffer := [''    /// details | T'', ''        type: info'']\<rparr>)
   \<and> process_line details_state ''body'' =
       Inr (details_state\<lparr>current_buffer := [''    /// details | T'', ''    body'']\<rparr>)"
proof -
  have f1: "re_search file_marker_pattern ''/// html | ul.tasklist'' = None" by code_simp
  have f2: "re_search file_marker_pattern ''type: info'' = None" by code_simp
  have f3: "re_search file_marker_pattern ''body'' = None" by code_simp
  have u: "unescape ''/// html | ul.tasklist'' = ''/// html | ul.tasklist''"
      "unescape ''type: info'' = ''type: info''" "unescape ''body'' = ''body''"
    by code_simp+
  have "map_option (\<lambda>(m, rest, g). (group g 1, group g 2))
          (re_match import_block_start_pattern ''/// html | ul.tasklist'')
        = Some (''html'', '' | ul.tasklist'')"
    by code_simp
  then obtain m rest g where
    g: "re_match import_block_start_pattern ''/// html | ul.tasklist'' = Some (m, rest, g)"
       "group g 1 = ''html''" "group g 2 = '' | ul.tasklist''"
    by (cases "re_match import_block_start_pattern ''/// html | ul.tasklist''") auto
  have n: "re_match import_block_start_pattern ''type: info'' = None"
      "re_match block_end_pattern ''type: info'' = None"
      "re_match import_block_start_pattern ''body'' = None"
      "re_match block_end_pattern ''body'' = None"
    by code_simp+
  have s: "indent_stack sample_state = [(0, None)] @ [(4, Some ''html'')]"
      "current_file sample_state = Some ''a.md''"
      "indent_stack details_state = [(0, None), (4, Some ''html'')] @ [(4, Some ''details'')]"
      "current_file details_state = Some ''a.md''"
    by (simp_all add: sample_state_def details_state_def)
  have c: "contains ''ul.tasklist'' '' | ul.tasklist''" by code_simp
  have t: "strip ''type: info'' = ''type: info''" "strip ''body'' = ''body''" by code_simp+
  have a: "process_line sample_state ''/// html | ul.tasklist'' =
       Inr (sample_state\<lparr>current_buffer := [''/// html | div'', ''    /// html | ul.tasklist''],
              indent_stack := [(0, None), (4, Some ''html''), (6, Some ''html'')]\<rparr>)"
    using reconstruction_indent_increments [OF f1 s(2) s(1)] g c
    by (simp add: u spaces_def sample_state_def numeral_eq_Suc)
  have b: "process_line details_state ''type: info'' =
       Inr (details_state\<lparr>current_buffer := [''    /// details | T'', ''        type: info'']\<rparr>)"
    using reconstruction_indent_increments [OF f2 s(4) s(3)] n
    by (simp add: u t spaces_def details_state_def numeral_eq_Suc)
  have d: "process_line details_state ''body'' =
       Inr (details_state\<lparr>current_buffer := [''    /// details | T'', ''    body'']\<rparr>)"
    using reconstruction_indent_increments [OF f3 s(4) s(3)] n
    by (simp add: u t spaces_def details_state_def numeral_eq_Suc)
  show ?thesis using f1 s a b d by simp
qed

section \<open>Unmatched block-end markers\<close>

lemma unindent_step_depth: "0 \<le> snd st \<Longrightarrow> 0 \<le> snd (unindent_step st line)"
  by (simp add: unindent_step_def Let_def)

lemma unindent_fold_depth: "0 \<le> snd st \<Longrightarrow> 0 \<le> snd (foldl unindent_step st lines)"
  by (induction lines arbitrary: st) (simp_all add: unindent_step_depth)

lemma hd_butlast_long: "1 < length xs \<Longrightarrow> hd (butlast xs) = hd xs"
  by (cases xs) auto

lemma butlast_long_nonempty: "1 < length xs \<Longrightarrow> butlast xs \<noteq> []"
  by (cases xs) auto

lemma process_line_seeded:
  assumes "seeded st"
  shows "\<exists>st'. process_line st line = Inr st' \<and> seeded st'"
proof (cases "re_search file_marker_pattern line")
  case (Some a)
  then show ?thesis
    by (cases a) (simp add: process_line_def seeded_def)
next
  case None
  note nomarker = None
  show ?thesis
  proof (cases "current_file st")
    case None
    with nomarker assms show ?thesis by (simp add: process_line_def)
  next
    case (Some f)
    obtain ci cb where top: "last (indent_stack st) = (ci, cb)" by (cases "last (indent_stack st)")
    have ne: "indent_stack st \<noteq> []" using assms by (simp add: seeded_def)
    show ?thesis
    proof (cases "re_match import_block_start_pattern (unescape line)")
      case (Some a)
      then show ?thesis using nomarker \<open>current_file st = Some f\<close> top ne assms
        by (cases a) (simp add: process_line_def stack_top_def seeded_def Let_def)
    next
      case None
      show ?thesis
      proof (cases "re_match block_end_pattern (unescape line) = None")
        case True
        then show ?thesis using None nomarker \<open>current_file st = Some f\<close> top ne assms
          by (simp add: process_line_def stack_top_def seeded_def Let_def)
      next
        case False
        let ?stack = "if 1 < length (indent_stack st) then butlast (indent_stack st) else indent_stack st"
        have sne: "?stack \<noteq> []" using ne by (simp add: butlast_long_nonempty)
        have shd: "hd ?stack = (0, None)" using assms by (simp add: seeded_def hd_butlast_long)
        obtain pi pb where ptop: "last ?stack = (pi, pb)" by (cases "last ?stack")
        have "process_line st line =
              Inr (st\<lparr>current_buffer := current_buffer st @ [spaces pi @ unescape line],
                      indent_stack := ?stack\<rparr>)"
          using False None nomarker \<open>current_file st = Some f\<close> top ne sne ptop
          by (simp add: process_line_def stack_top_def Let_def del: One_nat_def)
        then show ?thesis using sne shd by (simp add: seeded_def)
      qed
    qed
  qed
qed

lemma run_lines_seeded:
  "seeded st \<Longrightarrow> \<exists>st'. run_lines st lines = Inr st' \<and> seeded st'"
proof (induction lines arbitrary: st)
  case Nil
  then show ?case by simp
next
  case (Cons l ls)
  from process_line_seeded [OF Cons.prems, of l]
  obtain st1 where "process_line st l = Inr st1" "seeded st1" by blast
  with Cons.IH [of st1] show ?case by simp
qed

lemma seeded_initial: "seeded initial_state"
  by (simp add: seeded_def initial_state_def)

text \<open>
  Claim C4. Whatever the input text, so also with an extra block-end marker that matches
  no start: the depth of the flattening loop is never negative after any number of
  lines; the reconstruction loop raises no error after any number of lines, its stack
  is never empty and keeps the seed frame at the bottom, and \<open>process_content\<close> returns
  its result; an end marker met at depth 0 leaves the depth 0, and one met on the seed
  frame alone leaves the stack as it is, so the lines that follow are processed at a
  depth that is not negative. (The flattening functions have no operation that raises.)
\<close>

theorem depth_clamping_robustness:
  "(\<forall>k. 0 \<le> snd (unindent_loop (take k (split (CHR 0x0A) content))))
   \<and> (\<forall>k. \<exists>st. run_lines initial_state (take k (split_lines content)) = Inr st
              \<and> indent_stack st \<noteq> [] \<and> hd (indent_stack st) = (0, None))
   \<and> (\<exists>items. process_content content = Inr items)
   \<and> (\<forall>ls line. re_match export_block_start_pattern line = None
          \<and> re_match block_end_pattern line \<noteq> None \<longrightarrow>
        unindent_step (ls, 0) line = (ls @ [strip line, []], 0))
   \<and> (\<forall>st line f. re_search file_marker_pattern line = None
          \<and> current_file st = Some f \<and> indent_stack st = [(0, None)]
          \<and> re_match import_block_start_pattern (unescape line) = None
          \<and> re_match block_end_pattern (unescape line) \<noteq> None \<longrightarrow>
        process_line st line = Inr (st\<lparr>current_buffer := current_buffer st @ [unescape line]\<rparr>))"
proof (intro conjI allI impI)
  fix k show "0 \<le> snd (unindent_loop (take k (split (CHR 0x0A) content)))"
    by (simp add: unindent_loop_def unindent_fold_depth)
next
  fix k
  from run_lines_seeded [OF seeded_initial, of "take k (split_lines content)"]
  show "\<exists>st. run_lines initial_state (take k (split_lines content)) = Inr st
              \<and> indent_stack st \<noteq> [] \<and> hd (indent_stack st) = (0, None)"
    by (auto simp: seeded_def)
next
  from run_lines_seeded [OF seeded_initial, of "split_lines content"]
  show "\<exists>items. process_content content = Inr items"
    by (auto simp: process_content_def)
next
  fix ls line
  assume "re_match export_block_start_pattern line = None \<and> re_match block_end_pattern line \<noteq> None"
  then show "unindent_step (ls, 0) line = (ls @ [strip line, []], 0)"
    by (auto simp: unindent_step_def Let_def)
next
  fix st :: pc_state and line f
  assume "re_search file_marker_pattern line = None
          \<and> current_file st = Some f \<and> indent_stack st = [(0, None)]
          \<and> re_match import_block_start_pattern (unescape line) = None
          \<and> re_match block_end_pattern (unescape line) \<noteq> None"
  then show "process_line st line = Inr (st\<lparr>current_buffer := current_buffer st @ [unescape line]\<rparr>)"
    by (auto simp: process_line_def stack_top_def Let_def spaces_def)
qed

theorem depth_clamping_robustness_witness:
  "re_match export_block_start_pattern ''///'' = None
   \<and> re_match block_end_pattern ''///'' \<noteq> None
   \<and> unindent_step ([], 0) ''///'' = ([''///'', []], 0)
   \<and> re_search file_marker_pattern ''///'' = None
   \<and> current_file unit_state = Some ''a.md'' \<and> indent_stack unit_state = [(0, None)]
   \<and> re_match import_block_start_pattern (unescape ''///'') = None
   \<and> re_match block_end_pattern (unescape ''///'') \<noteq> None
   \<and> process_line unit_state ''///'' = Inr (unit_state\<lparr>current_buffer := [''///'']\<rparr>)
   \<and> unindent_loop [''///'', ''/// details'', ''    x''] = ([''///'', [], ''/// details'', [], ''x''], 1)"
proof -
  have a: "re_match export_block_start_pattern ''///'' = None" by code_simp
  have b: "re_match block_end_pattern ''///'' \<noteq> None" by code_simp
  have c: "re_search file_marker_pattern ''///'' = None" by code_simp
  have u: "unescape ''///'' = ''///''" by code_simp
  have d: "re_match import_block_start_pattern ''///'' = None" by code_simp
  have s: "current_file unit_state = Some ''a.md''" "indent_stack unit_state = [(0, None)]"
     "current_buffer unit_state = []"
    by (simp_all add: unit_state_def)
  have st: "strip ''///'' = ''///''" by code_simp
  have l: "unindent_loop [''///'', ''/// details'', ''    x''] = ([''///'', [], ''/// details'', [], ''x''], 1)"
    by code_simp
  note t = depth_clamping_robustness [of "''///''"]
  have e1: "unindent_step ([], 0) ''///'' = ([''///'', []], 0)"
    using t a b st by auto
  have e2: "process_line unit_state ''///'' = Inr (unit_state\<lparr>current_buffer := [''///'']\<rparr>)"
  proof -
    from t have "re_search file_marker_pattern ''///'' = None
          \<and> current_file unit_state = Some ''a.md'' \<and> indent_stack unit_state = [(0, None)]
          \<and> re_match import_block_start_pattern (unescape ''///'') = None
          \<and> re_match block_end_pattern (unescape ''///'') \<noteq> None \<longrightarrow>
        process_line unit_state ''///'' = Inr (unit_state\<lparr>current_buffer := current_buffer unit_state @ [unescape ''///'']\<rparr>)"
      by blast
    then show ?thesis using a b c d u s by simp
  qed
  show ?thesis using a b c d u s e1 e2 l by simp
qed

section \<open>The example of the annotated link\<close>

text \<open>
  Claim C2, as stated: in unit \<open>a.md\<close> of a registry with \<open>a.md\<close> and \<open>b.md\<close>, the link
  \<^verbatim>\<open>[Go](b.md#x){ #y }\<close> is exported as a bare link of visible text \<^verbatim>\<open>Go #y\<close> and target
  \<^verbatim>\<open>#b_md__x\<close>. The export keeps the braces of the annotation in the visible text, so
  the result is not that link.
\<close>

theorem example_link_export_counterexample:
  "process_links [''a.md'', ''b.md''] ''[Go](b.md#x){ #y }'' ''a.md'' \<noteq> ''[Go #y](#b_md__x)''"
  by code_simp

text \<open>
  Claim C2, amended: the export gives the bare link of visible text \<^verbatim>\<open>Go { #y }\<close> and
  target \<^verbatim>\<open>#b_md__x\<close>, and the decoders of the import (links, then attributes) give back
  \<^verbatim>\<open>[Go](b.md#x){ #y }\<close>: visible text \<open>Go\<close>, target \<open>b.md#x\<close>, and the annotation after
  it. The same holds in the registry of the scripts for a link from \<open>introduction.md\<close>
  to \<open>validity.md\<close>.
\<close>

theorem example_link_round_trip:
  "process_links [''a.md'', ''b.md''] ''[Go](b.md#x){ #y }'' ''a.md'' = ''[Go { #y }](#b_md__x)''
   \<and> restore_attributes (restore_links [''a.md'', ''b.md''] [''[Go { #y }](#b_md__x)''] ''a.md'')
       = [''[Go](b.md#x){ #y }'']
   \<and> process_links FILES ''[Go](validity.md#x){ #y }'' ''introduction.md''
       = ''[Go { #y }](#validity_md__x)''
   \<and> restore_attributes (restore_links FILES [''[Go { #y }](#validity_md__x)''] ''introduction.md'')
       = [''[Go](validity.md#x){ #y }'']"
  by code_simp

section \<open>Facts about the matcher\<close>

lemma startswith_iff: "startswith s l \<longleftrightarrow> (\<exists>t. s = l @ t)"
  by (induction s l rule: startswith.induct) auto

lemma startswith_append [simp]: "startswith (l @ t) l"
  by (simp add: startswith_iff)

lemma startswith_drop: "startswith s l \<Longrightarrow> l @ drop (length l) s = s"
  by (auto simp: startswith_iff)

lemma ms_sound: "(m, s', c') \<in> set (ms r b s c) \<Longrightarrow> s = m @ s'"
proof (induction r arbitrary: b s c m s' c')
  case (Lit l)
  then show ?case by (auto simp: startswith_drop split: if_splits)
next
  case (One p)
  then show ?case by (auto split: list.splits if_splits)
next
  case (Seq r1 r2)
  from Seq.prems obtain m1 s1 c1 m2 where
    a: "(m1, s1, c1) \<in> set (ms r1 b s c)" and
    b: "(m2, s', c') \<in> set (ms r2 (b \<and> m1 = []) s1 c1)" and m: "m = m1 @ m2"
    by auto
  from Seq.IH(1) [OF a] Seq.IH(2) [OF b] m show ?case by simp
next
  case (Opt r)
  then show ?case by auto
next
  case (Grp n r)
  then show ?case by auto
qed (auto split: if_splits)

lemma search_from_NoneI:
  "(\<And>pre post b'. s = pre @ post \<Longrightarrow> ms r b' post Map.empty = []) \<Longrightarrow> search_from r b s = None"
proof (induction s arbitrary: b)
  case Nil
  from Nil [of "[]" "[]"] show ?case by simp
next
  case (Cons x xs)
  have h: "ms r b (x # xs) Map.empty = []" using Cons.prems [of "[]" "x # xs"] by simp
  have "search_from r False xs = None"
  proof (rule Cons.IH)
    fix pre post b' assume "xs = pre @ post"
    then have "x # xs = (x # pre) @ post" by simp
    then show "ms r b' post Map.empty = []" by (rule Cons.prems)
  qed
  with h show ?case by simp
qed

lemma search_from_SomeD:
  "search_from r b s = Some y \<Longrightarrow>
     \<exists>pre post b' rest. s = pre @ post \<and> ms r b' post Map.empty = y # rest"
proof (induction s arbitrary: b)
  case Nil
  then obtain rest where "ms r b [] Map.empty = y # rest"
    by (cases "ms r b [] Map.empty") simp_all
  then have "[] = [] @ [] \<and> ms r b [] Map.empty = y # rest" by simp
  then show ?case by (intro exI)
next
  case step: (Cons x xs)
  show ?case
  proof (cases "ms r b (x # xs) Map.empty")
    case Nil
    with step.prems have "search_from r False xs = Some y" by simp
    from step.IH [OF this] obtain pre post b' rest where
      e: "xs = pre @ post" "ms r b' post Map.empty = y # rest" by auto
    then have "x # xs = (x # pre) @ post \<and> ms r b' post Map.empty = y # rest" by simp
    then show ?thesis by (intro exI)
  next
    case (Cons z zs)
    with step.prems have "z = y" by simp
    with Cons have "x # xs = [] @ (x # xs) \<and> ms r b (x # xs) Map.empty = y # zs" by simp
    then show ?thesis by (intro exI)
  qed
qed

lemma search_from_found:
  "(\<And>b'. ms r b' post Map.empty \<noteq> []) \<Longrightarrow> search_from r b (pre @ post) \<noteq> None"
proof (induction pre arbitrary: b)
  case Nil
  then have "ms r b post Map.empty \<noteq> []" by simp
  then show ?case by (cases post; cases "ms r b post Map.empty") simp_all
next
  case (Cons x pre)
  have "search_from r False (pre @ post) \<noteq> None" by (rule Cons.IH) (rule Cons.prems)
  then show ?case by (cases "ms r b (x # pre @ post) Map.empty") simp_all
qed

lemma sub_from_no_match:
  "(\<And>pre post b'. s = pre @ post \<Longrightarrow> ms r b' post Map.empty = []) \<Longrightarrow> sub_from r f b s = s"
proof (induction s arbitrary: b)
  case Nil
  from Nil [of "[]" "[]"] show ?case by simp
next
  case (Cons x xs)
  have h: "ms r b (x # xs) Map.empty = []" using Cons.prems [of "[]" "x # xs"] by simp
  have "sub_from r f False xs = xs"
  proof (rule Cons.IH)
    fix pre post b' assume "xs = pre @ post"
    then have "x # xs = (x # pre) @ post" by simp
    then show "ms r b' post Map.empty = []" by (rule Cons.prems)
  qed
  with h show ?case by simp
qed

lemma sub_from_whole:
  assumes "ms r b s Map.empty = (s, [], c) # rest" "s \<noteq> []" 
  shows "sub_from r f b s = f s c @ (case ms r False [] Map.empty of [] \<Rightarrow> [] | (m, s', c') # _ \<Rightarrow> f m c')"
  using assms by (cases s) auto

lemma sub_from_head:
  assumes "ms r b s Map.empty = (m, s', c) # rest" "m \<noteq> []"
  shows "sub_from r f b s = f m c @ sub_from r f False s'"
proof -
  from assms(1) have "(m, s', c) \<in> set (ms r b s Map.empty)" by simp
  then have e: "s = m @ s'" by (rule ms_sound)
  with assms(2) obtain x xs where s: "s = x # xs" by (cases m) auto
  from e assms(2) have "length s' < length s" by simp
  with assms(1) s show ?thesis by simp
qed

text \<open>Greedy repetition followed by something that cannot start with the class.\<close>

lemma concat_map_empty: "(\<And>x. x \<in> set xs \<Longrightarrow> f x = []) \<Longrightarrow> concat (map f xs) = []"
  by (induction xs) auto

lemma ms_Many_list:
  assumes "\<forall>x\<in>set xs. p x" "ys = [] \<or> \<not> p (hd ys)" "n \<le> length xs"
  shows "ms (Many p n) b (xs @ ys) c =
           (xs, ys, c) # map (\<lambda>j. (take j xs, drop j xs @ ys, c)) (rev [n ..< length xs])"
proof -
  have tw: "takeWhile p (xs @ ys) = xs"
    using assms(1,2) by (cases ys) (auto simp: takeWhile_append2)
  have "rev [n ..< Suc (length xs)] = length xs # rev [n ..< length xs]"
    using assms(3) by simp
  then show ?thesis by (simp add: tw)
qed

lemma drop_starts_with_class:
  assumes "\<forall>x\<in>set xs. p x" "j < length xs"
    and rej: "\<And>x zs b c. p x \<Longrightarrow> ms r2 b (x # zs) c = []"
  shows "ms r2 b' (drop j xs @ ys) c' = []"
proof -
  have "drop j xs = xs ! j # drop (Suc j) xs" using assms(2) by (simp add: Cons_nth_drop_Suc)
  moreover have "p (xs ! j)" using assms(1,2) by simp
  ultimately show ?thesis by (simp add: rej)
qed

lemma ms_Many_then:
  assumes "\<forall>x\<in>set xs. p x" "ys = [] \<or> \<not> p (hd ys)" "n \<le> length xs"
    and rej: "\<And>x zs b c. p x \<Longrightarrow> ms r2 b (x # zs) c = []"
  shows "ms (Seq (Many p n) r2) b (xs @ ys) c =
           map (\<lambda>(m2, s2, c2). (xs @ m2, s2, c2)) (ms r2 (b \<and> xs = []) ys c)"
proof -
  have "ms (Seq (Many p n) r2) b (xs @ ys) c =
          concat (map (\<lambda>(m1, s1, c1).
               map (\<lambda>(m2, s2, c2). (m1 @ m2, s2, c2)) (ms r2 (b \<and> m1 = []) s1 c1))
             ((xs, ys, c) # map (\<lambda>j. (take j xs, drop j xs @ ys, c)) (rev [n ..< length xs])))"
    by (simp only: ms.simps(5) ms_Many_list [OF assms(1-3)])
  also have "\<dots> = map (\<lambda>(m2, s2, c2). (xs @ m2, s2, c2)) (ms r2 (b \<and> xs = []) ys c)"
    by (simp add: drop_starts_with_class [OF assms(1) _ rej])
  finally show ?thesis .
qed

lemma ms_Grp_Many_then:
  assumes "\<forall>x\<in>set xs. p x" "ys = [] \<or> \<not> p (hd ys)" "n \<le> length xs"
    and rej: "\<And>x zs b c. p x \<Longrightarrow> ms r2 b (x # zs) c = []"
  shows "ms (Seq (Grp g (Many p n)) r2) b (xs @ ys) c =
           map (\<lambda>(m2, s2, c2). (xs @ m2, s2, c2)) (ms r2 (b \<and> xs = []) ys (c(g \<mapsto> xs)))"
proof -
  have "ms (Seq (Grp g (Many p n)) r2) b (xs @ ys) c =
          concat (map (\<lambda>(m1, s1, c1).
               map (\<lambda>(m2, s2, c2). (m1 @ m2, s2, c2)) (ms r2 (b \<and> m1 = []) s1 c1))
             (map (\<lambda>(m, s', c'). (m, s', c'(g \<mapsto> m)))
               ((xs, ys, c) # map (\<lambda>j. (take j xs, drop j xs @ ys, c)) (rev [n ..< length xs]))))"
    by (simp only: ms.simps(5) ms.simps(7) ms_Many_list [OF assms(1-3)])
  also have "\<dots> = map (\<lambda>(m2, s2, c2). (xs @ m2, s2, c2)) (ms r2 (b \<and> xs = []) ys (c(g \<mapsto> xs)))"
    by (simp add: drop_starts_with_class [OF assms(1) _ rej])
  finally show ?thesis .
qed

lemma ms_Lit_Cons_reject: "x \<noteq> y \<Longrightarrow> ms (Lit (y # l)) b (x # zs) c = []"
  by simp

lemma ms_Seq_Lit_Cons_reject: "x \<noteq> y \<Longrightarrow> ms (Seq (Lit (y # l)) r) b (x # zs) c = []"
  by simp

section \<open>The pre-pass of the import\<close>

lemma ms_Seq_nonempty:
  "ms (Seq r1 r2) b s c \<noteq> [] \<longleftrightarrow>
     (\<exists>m1 s1 c1. (m1, s1, c1) \<in> set (ms r1 b s c) \<and> ms r2 (b \<and> m1 = []) s1 c1 \<noteq> [])"
proof -
  have "ms (Seq r1 r2) b s c \<noteq> [] \<longleftrightarrow>
          (\<exists>x\<in>set (ms r1 b s c). ms r2 (b \<and> fst x = []) (fst (snd x)) (snd (snd x)) \<noteq> [])"
    by (simp add: split_def)
  then show ?thesis by auto
qed

lemma ms_SeqI:
  "(m1, s1, c1) \<in> set (ms r1 b s c) \<Longrightarrow> ms r2 (b \<and> m1 = []) s1 c1 \<noteq> []
     \<Longrightarrow> ms (Seq r1 r2) b s c \<noteq> []"
  using iffD2 [OF ms_Seq_nonempty] by blast

lemma take_within_takeWhile:
  "j \<le> length (takeWhile p t) \<Longrightarrow> \<forall>x\<in>set (take j t). p x"
proof -
  assume j: "j \<le> length (takeWhile p t)"
  have "take j t = take j (takeWhile p t @ dropWhile p t)" by simp
  also have "\<dots> = take j (takeWhile p t)" using j by (simp del: takeWhile_dropWhile_id)
  finally have "set (take j t) \<subseteq> set (takeWhile p t)" by (simp add: set_take_subset)
  then show ?thesis by (auto dest: set_takeWhileD)
qed

lemma spaces_then_end:
  "ms (Seq (Many is_space 0) Eol) b t c \<noteq> [] \<longleftrightarrow> (\<forall>x\<in>set t. is_space x)"
proof
  assume "ms (Seq (Many is_space 0) Eol) b t c \<noteq> []"
  then obtain m1 s1 c1 where a: "(m1, s1, c1) \<in> set (ms (Many is_space 0) b t c)"
      and e: "ms Eol (b \<and> m1 = []) s1 c1 \<noteq> []"
    using iffD1 [OF ms_Seq_nonempty] by blast
  from a obtain j where j: "j \<le> length (takeWhile is_space t)" "m1 = take j t" "s1 = drop j t"
    by (auto simp: less_Suc_eq_le simp del: upt_Suc)
  from e have "s1 = [] \<or> s1 = [CHR 0x0A]" by (simp split: if_splits)
  then have "\<forall>x\<in>set s1. is_space x" by (auto simp: is_space_def)
  moreover have "\<forall>x\<in>set m1. is_space x" using j take_within_takeWhile by blast
  moreover have "t = m1 @ s1" using j by simp
  ultimately show "\<forall>x\<in>set t. is_space x" by auto
next
  assume all: "\<forall>x\<in>set t. is_space x"
  then have tw: "takeWhile is_space t = t" by (simp add: takeWhile_eq_all_conv)
  have "(t, [], c) \<in> set (ms (Many is_space 0) b t c)"
    by (simp add: tw image_iff)
  moreover have "ms Eol (b \<and> t = []) [] c \<noteq> []" by simp
  ultimately show "ms (Seq (Many is_space 0) Eol) b t c \<noteq> []"
    by (rule ms_SeqI)
qed

lemma trailing_tag_iff:
  "ms trailing_tag_pattern b s c \<noteq> [] \<longleftrightarrow>
     (\<exists>x ws. s = x # ''///'' @ ws \<and> is_space x \<and> (\<forall>y\<in>set ws. is_space y))"
proof
  assume "ms trailing_tag_pattern b s c \<noteq> []"
  then obtain m1 s1 c1 where a: "(m1, s1, c1) \<in> set (ms (One is_space) b s c)"
      and r: "ms (Seq (Lit ''///'') (Seq (Many is_space 0) Eol)) (b \<and> m1 = []) s1 c1 \<noteq> []"
    unfolding trailing_tag_pattern_def using iffD1 [OF ms_Seq_nonempty] by blast
  from a obtain x where x: "s = x # s1" "is_space x" by (auto split: list.splits if_splits)
  from r obtain m2 s2 c2 where l: "(m2, s2, c2) \<in> set (ms (Lit ''///'') (b \<and> m1 = []) s1 c1)"
      and t: "ms (Seq (Many is_space 0) Eol) ((b \<and> m1 = []) \<and> m2 = []) s2 c2 \<noteq> []"
    using iffD1 [OF ms_Seq_nonempty] by blast
  from l have m2: "m2 = ''///''" by (auto split: if_splits)
  from ms_sound [OF l] m2 have "s1 = ''///'' @ s2" by simp
  moreover from t have "\<forall>y\<in>set s2. is_space y" by (simp only: spaces_then_end)
  ultimately show "\<exists>x ws. s = x # ''///'' @ ws \<and> is_space x \<and> (\<forall>y\<in>set ws. is_space y)"
    using x by blast
next
  assume "\<exists>x ws. s = x # ''///'' @ ws \<and> is_space x \<and> (\<forall>y\<in>set ws. is_space y)"
  then obtain x ws where s: "s = x # ''///'' @ ws" "is_space x" "\<forall>y\<in>set ws. is_space y" by blast
  have 1: "([x], ''///'' @ ws, c) \<in> set (ms (One is_space) b s c)" using s by simp
  have 2: "(''///'', ws, c) \<in> set (ms (Lit ''///'') (b \<and> [x] = []) (''///'' @ ws) c)" by simp
  have 3: "ms (Seq (Many is_space 0) Eol) ((b \<and> [x] = []) \<and> ''///'' = []) ws c \<noteq> []"
    using s(3) by (simp only: spaces_then_end) 
  have 4: "ms (Seq (Lit ''///'') (Seq (Many is_space 0) Eol)) (b \<and> [x] = []) (''///'' @ ws) c \<noteq> []"
    by (rule ms_SeqI [OF 2 3])
  show "ms trailing_tag_pattern b s c \<noteq> []"
    unfolding trailing_tag_pattern_def by (rule ms_SeqI [OF 1 4])
qed


lemma strip_all_space: "\<forall>x\<in>set s. is_space x \<Longrightarrow> strip s = []"
proof -
  assume "\<forall>x\<in>set s. is_space x"
  then have d: "dropWhile is_space s = []" by (simp add: dropWhile_eq_Nil_conv)
  show ?thesis unfolding strip_def d by simp
qed

lemma slash_not_space: "\<not> is_space CHR ''/''"
  by (simp add: is_space_def)

lemma strip_tag_line:
  assumes "\<forall>y\<in>set ws. is_space y"
  shows "strip (p @ ''///'' @ ws) = dropWhile is_space p @ ''///''"
proof -
  have l: "dropWhile is_space (p @ ''///'' @ ws) = dropWhile is_space p @ ''///'' @ ws"
    by (induction p) (simp_all add: slash_not_space)
  have r: "rev (dropWhile is_space p @ ''///'' @ ws) = rev ws @ ''///'' @ rev (dropWhile is_space p)"
    by simp
  have "dropWhile is_space (rev ws @ ''///'' @ rev (dropWhile is_space p))
          = dropWhile is_space (''///'' @ rev (dropWhile is_space p))"
    using assms by (intro dropWhile_append2) simp
  also have "\<dots> = ''///'' @ rev (dropWhile is_space p)"
    by (simp add: slash_not_space)
  finally have d: "dropWhile is_space (rev ws @ ''///'' @ rev (dropWhile is_space p))
          = ''///'' @ rev (dropWhile is_space p)" .
  have "strip (p @ ''///'' @ ws) = rev (dropWhile is_space (rev (dropWhile is_space p @ ''///'' @ ws)))"
    by (simp only: strip_def l)
  also have "\<dots> = rev (''///'' @ rev (dropWhile is_space p))"
    by (simp only: r d)
  also have "\<dots> = dropWhile is_space p @ ''///''" by simp
  finally show ?thesis .
qed

lemma startswith_set: "startswith s sub \<Longrightarrow> set sub \<subseteq> set s"
  by (auto simp: startswith_iff)

lemma rfind_none: "a \<in> set sub \<Longrightarrow> a \<notin> set s \<Longrightarrow> rfind sub s = - 1"
proof (induction s)
  case Nil
  then show ?case by auto
next
  case (Cons x xs)
  then have "rfind sub xs = - 1" by simp
  moreover have "\<not> startswith (x # xs) sub"
    using Cons.prems startswith_set by blast
  ultimately show ?case by (simp del: startswith.simps)
qed

lemma rfind_step: "rfind sub (a # s) = (if 0 \<le> rfind sub s then rfind sub s + 1
      else if startswith (a # s) sub then 0 else - 1)"
  by (simp add: Let_def)

lemma rfind_last_occurrence:
  "startswith s sub \<Longrightarrow> s \<noteq> [] \<Longrightarrow> rfind sub (tl s) = - 1 \<Longrightarrow> rfind sub (p @ s) = int (length p)"
proof (induction p)
  case Nil
  then obtain a t where "s = a # t" by (cases s) auto
  with Nil show ?case by (simp add: rfind_step del: rfind.simps startswith.simps)
next
  case (Cons a p)
  then have "rfind sub (p @ s) = int (length p)" by simp
  then show ?case by (simp add: rfind_step del: rfind.simps startswith.simps)
qed

lemma rfind_tag_a:
  assumes "CHR ''/'' \<notin> set ws"
  shows "rfind ''///'' ws = - 1"
  by (rule rfind_none [OF _ assms]) simp

lemma rfind_tag_b:
  assumes "CHR ''/'' \<notin> set ws"
  shows "rfind ''///'' (CHR ''/'' # ws) = - 1"
proof -
  have "\<not> startswith (CHR ''/'' # ws) ''///''" using assms by (cases ws) auto
  then show ?thesis
    unfolding rfind_step [of "''///''" "CHR ''/''" ws] rfind_tag_a [OF assms] by simp
qed

lemma rfind_tag_c:
  assumes "CHR ''/'' \<notin> set ws"
  shows "rfind ''///'' (CHR ''/'' # CHR ''/'' # ws) = - 1"
proof -
  have "\<not> startswith (CHR ''/'' # CHR ''/'' # ws) ''///''" using assms by (cases ws) auto
  then show ?thesis
    unfolding rfind_step [of "''///''" "CHR ''/''" "CHR ''/'' # ws"] rfind_tag_b [OF assms] by simp
qed

lemma rfind_tag:
  assumes "\<forall>y\<in>set ws. is_space y"
  shows "rfind ''///'' (p @ ''///'' @ ws) = int (length p)"
proof -
  have n: "CHR ''/'' \<notin> set ws" using assms slash_not_space by blast
  have 3: "rfind ''///'' (tl (''///'' @ ws)) = - 1"
    using rfind_tag_c [OF n] by (simp del: rfind.simps)
  have 4: "startswith (''///'' @ ws) ''///''" by (rule startswith_append)
  have 5: "''///'' @ ws \<noteq> []" by simp
  show ?thesis
    by (rule rfind_last_occurrence [OF 4 5 3])
qed

text \<open>
  Claim C7, as stated: every line that ends with the end marker and is not the marker
  alone is split at the marker. The line \<^verbatim>\<open>abc///\<close> ends with the marker and is more than
  the marker, and the pre-pass leaves it whole: the source splits only where the marker
  is preceded by whitespace.
\<close>

theorem prepass_split_counterexample:
  "endswith ''abc///'' ''///'' \<and> ''abc///'' \<noteq> ''///''
   \<and> split_lines ''abc///'' = [''abc///'']
   \<and> split_lines ''abc///'' \<noteq> [''abc'', ''///'']"
  by code_simp

lemma split_line_tag:
  assumes p: "p \<noteq> []" "is_space (last p)" "\<exists>c\<in>set p. \<not> is_space c"
    and ws: "\<forall>y\<in>set ws. is_space y"
  shows "split_line (p @ ''///'' @ ws) = [p, ''///'' @ ws]"
proof -
  let ?line = "p @ ''///'' @ ws"
  have s: "strip ?line = dropWhile is_space p @ ''///''" by (rule strip_tag_line [OF ws])
  have ne: "dropWhile is_space p \<noteq> []" using p(3) by (simp add: dropWhile_eq_Nil_conv)
  have e: "endswith (strip ?line) ''///''"
    unfolding s endswith_def by (simp add: startswith_iff)
  have n: "strip ?line \<noteq> ''///''" unfolding s using ne by simp
  have eq: "butlast p @ (last p # ''///'' @ ws) = ?line" using p(1) by simp
  have sf: "search_from trailing_tag_pattern True (butlast p @ (last p # ''///'' @ ws)) \<noteq> None"
  proof (rule search_from_found)
    fix b'
    show "ms trailing_tag_pattern b' (last p # ''///'' @ ws) Map.empty \<noteq> []"
      using p(2) ws by (intro iffD2 [OF trailing_tag_iff]) blast
  qed
  have r: "re_search trailing_tag_pattern ?line \<noteq> None"
    unfolding re_search_def using sf [unfolded eq] .
  have i: "rfind ''///'' ?line = int (length p)" by (rule rfind_tag [OF ws])
  have "split_line ?line = [slice_to (int (length p)) ?line, slice_from (int (length p)) ?line]"
    using e n r by (simp only: split_line_def Let_def i if_True simp_thms)
  then show ?thesis by (simp add: slice_to_def slice_from_def)
qed

lemma split_line_changed:
  assumes "split_line line \<noteq> [line]"
  shows "\<exists>p ws. line = p @ ''///'' @ ws \<and> p \<noteq> [] \<and> is_space (last p)
            \<and> (\<exists>c\<in>set p. \<not> is_space c) \<and> (\<forall>y\<in>set ws. is_space y)"
proof -
  from assms have n: "strip line \<noteq> ''///''" and r: "re_search trailing_tag_pattern line \<noteq> None"
    by (auto simp: split_line_def Let_def split: if_splits)
  from r obtain y where "search_from trailing_tag_pattern True line = Some y"
    by (auto simp: re_search_def)
  from search_from_SomeD [OF this] obtain pre post b' rest where
    l: "line = pre @ post" and m: "ms trailing_tag_pattern b' post Map.empty = y # rest" by blast
  from m have "ms trailing_tag_pattern b' post Map.empty \<noteq> []" by simp
  then obtain x ws where post: "post = x # ''///'' @ ws" "is_space x" "\<forall>y\<in>set ws. is_space y"
    using iffD1 [OF trailing_tag_iff] by blast
  let ?p = "pre @ [x]"
  have line: "line = ?p @ ''///'' @ ws" using l post(1) by simp
  have "\<exists>c\<in>set ?p. \<not> is_space c"
  proof (rule ccontr)
    assume "\<not> (\<exists>c\<in>set ?p. \<not> is_space c)"
    then have "dropWhile is_space ?p = []" by (simp add: dropWhile_eq_Nil_conv)
    with strip_tag_line [OF post(3), of ?p] line have "strip line = ''///''" by simp
    with n show False by simp
  qed
  with line post(2,3) show ?thesis
    by (intro exI [of _ ?p] exI [of _ ws]) simp
qed

text \<open>
  Claim C7, amended: a line made of a part \<open>p\<close> that ends with a whitespace character
  and is not all whitespace, then the marker \<^verbatim>\<open>///\<close>, then whitespace only, is split by the
  pre-pass into \<open>p\<close> and the marker with the whitespace after it (the cut is at the last
  occurrence of the marker); every other line passes through unchanged; the pre-pass
  applies this to each line of the text in order.
\<close>

theorem prepass_split:
  "(\<forall>p ws. p \<noteq> [] \<and> is_space (last p) \<and> (\<exists>c\<in>set p. \<not> is_space c)
        \<and> (\<forall>y\<in>set ws. is_space y) \<longrightarrow>
      split_line (p @ ''///'' @ ws) = [p, ''///'' @ ws])
   \<and> (\<not> (\<exists>p ws. line = p @ ''///'' @ ws \<and> p \<noteq> [] \<and> is_space (last p)
             \<and> (\<exists>c\<in>set p. \<not> is_space c) \<and> (\<forall>y\<in>set ws. is_space y)) \<longrightarrow>
      split_line line = [line])
   \<and> split_lines content = concat (map split_line (split (CHR 0x0A) content))"
proof (intro conjI allI impI)
  fix p ws
  assume "p \<noteq> [] \<and> is_space (last p) \<and> (\<exists>c\<in>set p. \<not> is_space c)
        \<and> (\<forall>y\<in>set ws. is_space y)"
  then show "split_line (p @ ''///'' @ ws) = [p, ''///'' @ ws]"
    by (intro split_line_tag) simp_all
next
  assume n: "\<not> (\<exists>p ws. line = p @ ''///'' @ ws \<and> p \<noteq> [] \<and> is_space (last p)
             \<and> (\<exists>c\<in>set p. \<not> is_space c) \<and> (\<forall>y\<in>set ws. is_space y))"
  show "split_line line = [line]"
  proof (rule ccontr)
    assume "split_line line \<noteq> [line]"
    from split_line_changed [OF this] n show False by (rule notE [rotated])
  qed
next
  show "split_lines content = concat (map split_line (split (CHR 0x0A) content))"
    by (simp add: split_lines_def)
qed

theorem prepass_split_witness:
  "split_line (''text '' @ ''///'' @ '' '') = [''text '', ''///'' @ '' '']
   \<and> split_line ''x'' = [''x'']
   \<and> split_lines (''text ///'' @ [CHR 0x0A] @ ''///'') = [''text '', ''///'', ''///'']"
proof -
  have h: "''text '' \<noteq> [] \<and> is_space (last ''text '') \<and> (\<exists>c\<in>set ''text ''. \<not> is_space c)
        \<and> (\<forall>y\<in>set '' ''. is_space y)"
    by (simp add: is_space_def)
  have a: "split_line (''text '' @ ''///'' @ '' '') = [''text '', ''///'' @ '' '']"
    using prepass_split [of "''x''" "[]"] h by blast
  have n: "\<not> (\<exists>p ws. ''x'' = p @ ''///'' @ ws \<and> p \<noteq> [] \<and> is_space (last p)
             \<and> (\<exists>c\<in>set p. \<not> is_space c) \<and> (\<forall>y\<in>set ws. is_space y))"
  proof
    assume "\<exists>p ws. ''x'' = p @ ''///'' @ ws \<and> p \<noteq> [] \<and> is_space (last p)
             \<and> (\<exists>c\<in>set p. \<not> is_space c) \<and> (\<forall>y\<in>set ws. is_space y)"
    then obtain p ws where "''x'' = p @ ''///'' @ ws" by blast
    then have "length ''x'' = length (p @ ''///'' @ ws)" by (rule arg_cong)
    then show False by simp
  qed
  have b: "split_line ''x'' = [''x'']"
    using prepass_split [of "''x''" "[]"] n by blast
  have c: "split_lines (''text ///'' @ [CHR 0x0A] @ ''///'') = [''text '', ''///'', ''///'']"
    by code_simp
  show ?thesis using a b c by simp
qed

section \<open>Links\<close>

lemma ms_Seq_Lit:
  "ms (Seq (Lit l) r) b (l @ s) c = map (\<lambda>(m2, s2, c2). (l @ m2, s2, c2)) (ms r (b \<and> l = []) s c)"
  by simp

lemma ms_Seq_Lit_fail: "\<not> startswith s l \<Longrightarrow> ms (Seq (Lit l) r) b s c = []"
  by simp

lemma ms_Lit_exact: "ms (Lit l) b l c = [(l, [], c)]"
  by (simp add: startswith_iff)

lemma ms_Opt_fail: "ms r b s c = [] \<Longrightarrow> ms (Opt r) b s c = [([], s, c)]"
  by simp

lemma ms_Grp_fail: "ms r b s c = [] \<Longrightarrow> ms (Grp g r) b s c = []"
  by simp

lemma ms_Many0_Lit_Nil: "ms (Seq (Many p 0) (Seq (Lit (y # l)) r)) b [] c = []"
  by simp


lemma export_link_match:
  assumes "t \<noteq> []" "CHR '']'' \<notin> set t" "u \<noteq> []" "CHR '')'' \<notin> set u"
  shows "ms export_link_pattern b (''['' @ t @ '']('' @ u @ '')'') Map.empty =
           [(''['' @ t @ '']('' @ u @ '')'', [], [1 \<mapsto> t, 2 \<mapsto> u])]"
proof -
  let ?G3 = "Grp 3 (Seq (Many is_space 0) (Seq (Lit ''{'') (Seq (Many (\<lambda>c. c = CHR '' '') 0)
         (Seq (Lit ''#'') (Seq (Many (not_chr CHR ''}'') 1) (Lit ''}''))))))"
  let ?R2 = "Seq (Lit '')'') (Opt ?G3)"
  let ?R1 = "Seq (Lit '']('') (Seq (Grp 2 (Many (not_chr CHR '')'') 1)) ?R2)"
  have 4: "ms (Opt ?G3) b' [] c = [([], [], c)]" for b' c
    by (intro ms_Opt_fail ms_Grp_fail ms_Many0_Lit_Nil)
  have "ms ?R2 b' ('')'' @ []) c = map (\<lambda>(m2, s2, c2). ('')'' @ m2, s2, c2)) (ms (Opt ?G3) (b' \<and> '')'' = []) [] c)"
    for b' c by (rule ms_Seq_Lit)
  then have 3: "ms ?R2 b' '')'' c = [('')'', [], c)]" for b' c
    by (simp only: 4 append_Nil2 list.map prod.case)
  have "ms (Seq (Grp 2 (Many (not_chr CHR '')'') 1)) ?R2) b' (u @ '')'') c
        = map (\<lambda>(m2, s2, c2). (u @ m2, s2, c2)) (ms ?R2 (b' \<and> u = []) '')'' (c(2 \<mapsto> u)))" for b' c
    using assms(3,4)
    by (intro ms_Grp_Many_then) (auto simp: not_chr_def Suc_le_eq ms_Seq_Lit_Cons_reject simp del: ms.simps)
  then have 2: "ms (Seq (Grp 2 (Many (not_chr CHR '')'') 1)) ?R2) b' (u @ '')'') c
             = [(u @ '')'', [], c(2 \<mapsto> u))]" for b' c
    by (simp only: 3 list.map prod.case)
  have "ms ?R1 b' ('']('' @ u @ '')'') c = map (\<lambda>(m2, s2, c2). ('']('' @ m2, s2, c2))
          (ms (Seq (Grp 2 (Many (not_chr CHR '')'') 1)) ?R2) (b' \<and> '']('' = []) (u @ '')'') c)" for b' c
    by (rule ms_Seq_Lit)
  then have 1: "ms ?R1 b' ('']('' @ u @ '')'') c = [('']('' @ u @ '')'', [], c(2 \<mapsto> u))]" for b' c
    by (simp only: 2 list.map prod.case)
  have "ms (Seq (Grp 1 (Many (not_chr CHR '']'') 1)) ?R1) b' (t @ '']('' @ u @ '')'') c
        = map (\<lambda>(m2, s2, c2). (t @ m2, s2, c2)) (ms ?R1 (b' \<and> t = []) ('']('' @ u @ '')'') (c(1 \<mapsto> t)))" for b' c
    using assms(1,2)
    by (intro ms_Grp_Many_then) (auto simp: not_chr_def Suc_le_eq ms_Seq_Lit_Cons_reject simp del: ms.simps)
  then have 0: "ms (Seq (Grp 1 (Many (not_chr CHR '']'') 1)) ?R1) b' (t @ '']('' @ u @ '')'') c
        = [(t @ '']('' @ u @ '')'', [], c(1 \<mapsto> t, 2 \<mapsto> u))]" for b' c
    by (simp only: 1 list.map prod.case)
  have "ms export_link_pattern b (''['' @ t @ '']('' @ u @ '')'') Map.empty =
       map (\<lambda>(m2, s2, c2). (''['' @ m2, s2, c2))
         (ms (Seq (Grp 1 (Many (not_chr CHR '']'') 1)) ?R1) (b \<and> ''['' = []) (t @ '']('' @ u @ '')'') Map.empty)"
    unfolding export_link_pattern_def by (rule ms_Seq_Lit)
  then show ?thesis by (simp only: 0 list.map prod.case)
qed


lemma sub_from_single:
  assumes "ms r b s Map.empty = [(s, [], c)]" "s \<noteq> []" "ms r False [] Map.empty = []"
  shows "sub_from r f b s = f s c"
  using sub_from_head [OF assms(1,2), of f] assms(3) by simp

lemma name_chr_not_paren: "is_name_chr x \<Longrightarrow> x \<noteq> CHR '')''"
  by (auto simp: is_name_chr_def is_word_def)

lemma paren_not_name: "\<not> is_name_chr CHR '')''"
  using name_chr_not_paren by blast

lemma name_chr_reject: "is_name_chr x \<Longrightarrow> ms (Lit '')'') b (x # zs) c = []"
  using name_chr_not_paren [of x] by simp

lemma import_link_match:
  assumes "t \<noteq> []" "CHR '']'' \<notin> set t" "a \<noteq> []" "\<forall>x\<in>set a. is_name_chr x"
  shows "ms import_link_pattern b (''['' @ t @ ''](#'' @ a @ '')'') Map.empty =
           [(''['' @ t @ ''](#'' @ a @ '')'', [], [1 \<mapsto> t, 2 \<mapsto> a])]"
proof -
  let ?R1 = "Seq (Lit ''](#'') (Seq (Grp 2 (Many is_name_chr 1)) (Lit '')''))"
  have "ms (Seq (Grp 2 (Many is_name_chr 1)) (Lit '')'')) b' (a @ '')'') c
        = map (\<lambda>(m2, s2, c2). (a @ m2, s2, c2)) (ms (Lit '')'') (b' \<and> a = []) '')'' (c(2 \<mapsto> a)))" for b' c
    using assms(3,4)
    by (intro ms_Grp_Many_then)
       (simp_all add: Suc_le_eq name_chr_reject paren_not_name del: ms.simps)
  then have 2: "ms (Seq (Grp 2 (Many is_name_chr 1)) (Lit '')'')) b' (a @ '')'') c
             = [(a @ '')'', [], c(2 \<mapsto> a))]" for b' c
    by (simp only: ms_Lit_exact list.map prod.case)
  have "ms ?R1 b' (''](#'' @ a @ '')'') c = map (\<lambda>(m2, s2, c2). (''](#'' @ m2, s2, c2))
          (ms (Seq (Grp 2 (Many is_name_chr 1)) (Lit '')'')) (b' \<and> ''](#'' = []) (a @ '')'') c)" for b' c
    by (rule ms_Seq_Lit)
  then have 1: "ms ?R1 b' (''](#'' @ a @ '')'') c = [(''](#'' @ a @ '')'', [], c(2 \<mapsto> a))]" for b' c
    by (simp only: 2 list.map prod.case)
  have "ms (Seq (Grp 1 (Many (not_chr CHR '']'') 1)) ?R1) b' (t @ ''](#'' @ a @ '')'') c
        = map (\<lambda>(m2, s2, c2). (t @ m2, s2, c2)) (ms ?R1 (b' \<and> t = []) (''](#'' @ a @ '')'') (c(1 \<mapsto> t)))" for b' c
    using assms(1,2)
    by (intro ms_Grp_Many_then) (auto simp: not_chr_def Suc_le_eq ms_Seq_Lit_Cons_reject simp del: ms.simps)
  then have 0: "ms (Seq (Grp 1 (Many (not_chr CHR '']'') 1)) ?R1) b' (t @ ''](#'' @ a @ '')'') c
        = [(t @ ''](#'' @ a @ '')'', [], c(1 \<mapsto> t, 2 \<mapsto> a))]" for b' c
    by (simp only: 1 list.map prod.case)
  have "ms import_link_pattern b (''['' @ t @ ''](#'' @ a @ '')'') Map.empty =
       map (\<lambda>(m2, s2, c2). (''['' @ m2, s2, c2))
         (ms (Seq (Grp 1 (Many (not_chr CHR '']'') 1)) ?R1) (b \<and> ''['' = []) (t @ ''](#'' @ a @ '')'') Map.empty)"
    unfolding import_link_pattern_def by (rule ms_Seq_Lit)
  then show ?thesis by (simp only: 0 list.map prod.case)
qed

lemma process_links_plain:
  assumes "t \<noteq> []" "CHR '']'' \<notin> set t" "u \<noteq> []" "CHR '')'' \<notin> set u"
  shows "process_links files (''['' @ t @ '']('' @ u @ '')'') cur =
           export_replace_link files cur (''['' @ t @ '']('' @ u @ '')'') [1 \<mapsto> t, 2 \<mapsto> u]"
  unfolding process_links_def re_sub_def
  by (rule sub_from_single [OF export_link_match [OF assms]])
     (simp_all add: export_link_pattern_def ms_Seq_Lit_fail del: ms.simps)

lemma restore_links_plain:
  assumes "t \<noteq> []" "CHR '']'' \<notin> set t" "a \<noteq> []" "\<forall>x\<in>set a. is_name_chr x"
  shows "restore_links files [''['' @ t @ ''](#'' @ a @ '')''] cur =
           [import_replace_link files cur (''['' @ t @ ''](#'' @ a @ '')'') [1 \<mapsto> t, 2 \<mapsto> a]]"
proof -
  have "sub_from import_link_pattern (import_replace_link files cur) True (''['' @ t @ ''](#'' @ a @ '')'')
      = import_replace_link files cur (''['' @ t @ ''](#'' @ a @ '')'') [1 \<mapsto> t, 2 \<mapsto> a]"
    by (rule sub_from_single [OF import_link_match [OF assms]])
       (simp_all add: import_link_pattern_def ms_Seq_Lit_fail del: ms.simps)
  then show ?thesis by (simp add: restore_links_def re_sub_def)
qed

lemma filename_of_url:
  "(case split c s of [] \<Rightarrow> [] | p # _ \<Rightarrow> p) = takeWhile (\<lambda>x. x \<noteq> c) s"
  by (induction s) (auto split: list.splits)

lemma split_no_sep: "c \<notin> set s \<Longrightarrow> split c s = [s]"
  by (induction s) auto

lemma split_append_sep: "c \<notin> set p \<Longrightarrow> split c (p @ c # s) = p # split c s"
  by (induction p) auto

lemma contains_iff: "contains sub s \<longleftrightarrow> (\<exists>pre post. s = pre @ sub @ post)"
proof (induction s)
  case Nil
  show ?case by auto
next
  case (Cons x xs)
  show ?case
  proof
    assume "contains sub (x # xs)"
    then consider "startswith (x # xs) sub" | "contains sub xs" by auto
    then show "\<exists>pre post. x # xs = pre @ sub @ post"
    proof cases
      case 1
      then obtain t where "x # xs = [] @ sub @ t" by (auto simp: startswith_iff)
      then show ?thesis by (intro exI)
    next
      case 2
      with Cons.IH obtain pre post where "xs = pre @ sub @ post" by blast
      then have "x # xs = (x # pre) @ sub @ post" by simp
      then show ?thesis by (intro exI)
    qed
  next
    assume "\<exists>pre post. x # xs = pre @ sub @ post"
    then obtain pre post where e: "x # xs = pre @ sub @ post" by blast
    show "contains sub (x # xs)"
    proof (cases pre)
      case Nil
      with e have "startswith (x # xs) sub" by (simp add: startswith_iff)
      then show ?thesis by simp
    next
      case (Cons y ys)
      with e have "xs = ys @ sub @ post" by simp
      with Cons.IH have "contains sub xs" by blast
      then show ?thesis by simp
    qed
  qed
qed

lemma find_target_none:
  "\<forall>f\<in>set files. a \<noteq> replace ''.'' ''_'' f \<and> \<not> startswith a (replace ''.'' ''_'' f @ ''__'')
     \<Longrightarrow> find_target files a = (None, None)"
  by (induction files) (simp_all add: Let_def del: replace.simps)

lemma export_link_pattern_alt:
  "export_link_pattern =
     Seq (Lit ''['') (Seq (Grp 1 (Many (not_chr CHR '']'') 1)) (Seq (Lit '']('')
    (Seq (Grp 2 (Many (not_chr CHR '')'') 1)) (Seq (Lit '')'') (Opt annotation_re)))))"
  by (simp add: export_link_pattern_def annotation_re_def)

lemma export_link_match_tail:
  assumes "t \<noteq> []" "CHR '']'' \<notin> set t" "u \<noteq> []" "CHR '')'' \<notin> set u"
  shows "ms export_link_pattern b (''['' @ t @ '']('' @ u @ '')'' @ z) Map.empty =
           map (\<lambda>(m, s, c). (''['' @ t @ '']('' @ u @ '')'' @ m, s, c))
               (ms (Opt annotation_re) False z [1 \<mapsto> t, 2 \<mapsto> u])"
proof -
  let ?R2 = "Seq (Lit '')'') (Opt annotation_re)"
  let ?R1 = "Seq (Lit '']('') (Seq (Grp 2 (Many (not_chr CHR '')'') 1)) ?R2)"
  have 3: "ms ?R2 b' ('')'' @ z) c = map (\<lambda>(m2, s2, c2). ('')'' @ m2, s2, c2)) (ms (Opt annotation_re) False z c)"
    for b' c by (simp only: ms_Seq_Lit) simp
  have "ms (Seq (Grp 2 (Many (not_chr CHR '')'') 1)) ?R2) b' (u @ '')'' @ z) c
        = map (\<lambda>(m2, s2, c2). (u @ m2, s2, c2)) (ms ?R2 (b' \<and> u = []) ('')'' @ z) (c(2 \<mapsto> u)))" for b' c
    using assms(3,4)
    by (intro ms_Grp_Many_then) (auto simp: not_chr_def Suc_le_eq ms_Seq_Lit_Cons_reject simp del: ms.simps)
  then have 2: "ms (Seq (Grp 2 (Many (not_chr CHR '')'') 1)) ?R2) b' (u @ '')'' @ z) c
             = map (\<lambda>(m, s, c). (u @ '')'' @ m, s, c)) (ms (Opt annotation_re) False z (c(2 \<mapsto> u)))" for b' c
    by (simp only: 3 map_map comp_def split_def fst_conv snd_conv)
  have "ms ?R1 b' ('']('' @ u @ '')'' @ z) c = map (\<lambda>(m2, s2, c2). ('']('' @ m2, s2, c2))
          (ms (Seq (Grp 2 (Many (not_chr CHR '')'') 1)) ?R2) (b' \<and> '']('' = []) (u @ '')'' @ z) c)" for b' c
    by (rule ms_Seq_Lit)
  then have 1: "ms ?R1 b' ('']('' @ u @ '')'' @ z) c
       = map (\<lambda>(m, s, c). ('']('' @ u @ '')'' @ m, s, c)) (ms (Opt annotation_re) False z (c(2 \<mapsto> u)))" for b' c
    by (simp only: 2 map_map comp_def split_def fst_conv snd_conv)
  have "ms (Seq (Grp 1 (Many (not_chr CHR '']'') 1)) ?R1) b' (t @ '']('' @ u @ '')'' @ z) c
        = map (\<lambda>(m2, s2, c2). (t @ m2, s2, c2)) (ms ?R1 (b' \<and> t = []) ('']('' @ u @ '')'' @ z) (c(1 \<mapsto> t)))" for b' c
    using assms(1,2)
    by (intro ms_Grp_Many_then) (auto simp: not_chr_def Suc_le_eq ms_Seq_Lit_Cons_reject simp del: ms.simps)
  then have 0: "ms (Seq (Grp 1 (Many (not_chr CHR '']'') 1)) ?R1) b' (t @ '']('' @ u @ '')'' @ z) c
        = map (\<lambda>(m, s, c). (t @ '']('' @ u @ '')'' @ m, s, c)) (ms (Opt annotation_re) False z (c(1 \<mapsto> t, 2 \<mapsto> u)))" for b' c
    by (simp only: 1 map_map comp_def split_def fst_conv snd_conv)
  have "ms export_link_pattern b (''['' @ t @ '']('' @ u @ '')'' @ z) Map.empty =
       map (\<lambda>(m2, s2, c2). (''['' @ m2, s2, c2))
         (ms (Seq (Grp 1 (Many (not_chr CHR '']'') 1)) ?R1) (b \<and> ''['' = []) (t @ '']('' @ u @ '')'' @ z) Map.empty)"
    unfolding export_link_pattern_alt by (rule ms_Seq_Lit)
  then show ?thesis by (simp only: 0 map_map comp_def split_def fst_conv snd_conv)
qed

lemma space_reject: "is_space x \<Longrightarrow> ms (Seq (Lit ''{'') r) b (x # zs) c = []"
  by (auto simp: is_space_def)

lemma brace_not_space: "\<not> is_space CHR ''{''"
  by (simp add: is_space_def)

lemma annotation_match:
  assumes "\<forall>x\<in>set ws. is_space x" "\<forall>x\<in>set sps. x = CHR '' ''" "i \<noteq> []" "CHR ''}'' \<notin> set i"
  shows "ms annotation_re b (ws @ ''{'' @ sps @ ''#'' @ i @ ''}'') c =
           [(ws @ ''{'' @ sps @ ''#'' @ i @ ''}'', [], c(3 \<mapsto> ws @ ''{'' @ sps @ ''#'' @ i @ ''}''))]"
proof -
  let ?Rd = "Seq (Many (not_chr CHR ''}'') 1) (Lit ''}'')"
  let ?Rc = "Seq (Lit ''#'') ?Rd"
  let ?Rb = "Seq (Many (\<lambda>c. c = CHR '' '') 0) ?Rc"
  let ?Ra = "Seq (Lit ''{'') ?Rb"
  have "ms ?Rd b' (i @ ''}'') c' = map (\<lambda>(m2, s2, c2). (i @ m2, s2, c2)) (ms (Lit ''}'') (b' \<and> i = []) ''}'' c')"
    for b' c' using assms(3,4)
    by (intro ms_Many_then) (auto simp: not_chr_def Suc_le_eq ms_Lit_Cons_reject simp del: ms.simps)
  then have d: "ms ?Rd b' (i @ ''}'') c' = [(i @ ''}'', [], c')]" for b' c'
    by (simp only: ms_Lit_exact list.map prod.case)
  have c: "ms ?Rc b' (''#'' @ i @ ''}'') c' = [(''#'' @ i @ ''}'', [], c')]" for b' c'
    by (simp only: ms_Seq_Lit d list.map prod.case)
  have "ms ?Rb b' (sps @ ''#'' @ i @ ''}'') c'
      = map (\<lambda>(m2, s2, c2). (sps @ m2, s2, c2)) (ms ?Rc (b' \<and> sps = []) (''#'' @ i @ ''}'') c')"
    for b' c' using assms(2)
    by (intro ms_Many_then) (simp_all add: ms_Seq_Lit_Cons_reject del: ms.simps)
  then have b: "ms ?Rb b' (sps @ ''#'' @ i @ ''}'') c' = [(sps @ ''#'' @ i @ ''}'', [], c')]" for b' c'
    by (simp only: c list.map prod.case)
  have a: "ms ?Ra b' (''{'' @ sps @ ''#'' @ i @ ''}'') c' = [(''{'' @ sps @ ''#'' @ i @ ''}'', [], c')]" for b' c'
    by (simp only: ms_Seq_Lit b list.map prod.case)
  have "ms (Seq (Many is_space 0) ?Ra) b' (ws @ ''{'' @ sps @ ''#'' @ i @ ''}'') c'
      = map (\<lambda>(m2, s2, c2). (ws @ m2, s2, c2)) (ms ?Ra (b' \<and> ws = []) (''{'' @ sps @ ''#'' @ i @ ''}'') c')"
    for b' c' using assms(1)
    by (intro ms_Many_then) (simp_all add: space_reject brace_not_space del: ms.simps)
  then have "ms (Seq (Many is_space 0) ?Ra) b' (ws @ ''{'' @ sps @ ''#'' @ i @ ''}'') c'
      = [(ws @ ''{'' @ sps @ ''#'' @ i @ ''}'', [], c')]" for b' c'
    by (simp only: a list.map prod.case)
  then show ?thesis
    unfolding annotation_re_def by (simp only: ms.simps(7) list.map prod.case)
qed

lemma export_unregistered:
  assumes "t \<noteq> []" "CHR '']'' \<notin> set t" "u \<noteq> []" "CHR '')'' \<notin> set u"
    and "takeWhile (\<lambda>x. x \<noteq> CHR ''#'') u \<notin> set files"
  shows "process_links files (''['' @ t @ '']('' @ u @ '')'') cur = ''['' @ t @ '']('' @ u @ '')''"
  unfolding process_links_plain [OF assms(1-4)]
  using assms(5)
  by (simp add: export_replace_link_def Let_def group_def str_of_def truthy_def filename_of_url
           del: split.simps contains.simps)

lemma import_unregistered:
  assumes "t \<noteq> []" "CHR '']'' \<notin> set t" "a \<noteq> []" "\<forall>x\<in>set a. is_name_chr x"
    and "\<forall>f\<in>set files. a \<noteq> replace ''.'' ''_'' f \<and> \<not> startswith a (replace ''.'' ''_'' f @ ''__'')"
  shows "restore_links files [''['' @ t @ ''](#'' @ a @ '')''] cur = [''['' @ t @ ''](#'' @ a @ '')'']"
  unfolding restore_links_plain [OF assms(1-4)]
  by (simp add: import_replace_link_def Let_def group_def str_of_def find_target_none [OF assms(5)] truthy_def)

lemma registered_facts:
  assumes "b \<in> set FILES"
  shows "contains ''.md'' (b @ w)" "\<not> startswith (b @ w) ''http''" "CHR ''#'' \<notin> set b"
    "CHR '')'' \<notin> set b" "b \<noteq> []"
  using assms by (auto simp: FILES_def)

lemma registered_safe:
  assumes "b \<in> set FILES"
  shows "\<forall>x\<in>set (replace ''.'' ''_'' b). is_name_chr x"
  using assms by (auto simp: FILES_def is_name_chr_def is_word_def)

lemma registered_target:
  assumes "b \<in> set FILES"
  shows "find_target FILES (replace ''.'' ''_'' b @ ''__'' @ s) = (Some b, Some s)"
  using assms by (auto simp: FILES_def slice_from_def)

lemma strip_braced:
  assumes "\<forall>x\<in>set ws. is_space x"
  shows "strip (ws @ ''{'' @ m @ ''}'') = ''{'' @ m @ ''}''"
proof -
  have l: "dropWhile is_space (ws @ ''{'' @ m @ ''}'') = ''{'' @ m @ ''}''"
    using assms by (induction ws) (simp_all add: brace_not_space)
  have "\<not> is_space CHR ''}''" by (simp add: is_space_def)
  then have "dropWhile is_space (rev (''{'' @ m @ ''}'')) = rev (''{'' @ m @ ''}'')" by simp
  then show ?thesis unfolding strip_def l by simp
qed

lemma export_unregistered_annotated:
  assumes "t \<noteq> []" "CHR '']'' \<notin> set t" "u \<noteq> []" "CHR '')'' \<notin> set u"
    and "takeWhile (\<lambda>x. x \<noteq> CHR ''#'') u \<notin> set files"
    and an: "\<forall>x\<in>set ws. is_space x" "\<forall>x\<in>set sps. x = CHR '' ''" "i \<noteq> []" "CHR ''}'' \<notin> set i"
  shows "process_links files (''['' @ t @ '']('' @ u @ '')'' @ ws @ ''{'' @ sps @ ''#'' @ i @ ''}'') cur
           = ''['' @ t @ '' '' @ ''{'' @ sps @ ''#'' @ i @ ''}'' @ '']('' @ u @ '')''"
proof -
  let ?z = "ws @ ''{'' @ sps @ ''#'' @ i @ ''}''"
  let ?link = "''['' @ t @ '']('' @ u @ '')''"
  let ?c = "[1 \<mapsto> t, 2 \<mapsto> u]"
  have o: "ms (Opt annotation_re) False ?z ?c = [(?z, [], ?c(3 \<mapsto> ?z)), ([], ?z, ?c)]"
    unfolding ms.simps(6) annotation_match [OF an] by simp
  have m: "ms export_link_pattern True (?link @ ?z) Map.empty
         = [(?link @ ?z, [], ?c(3 \<mapsto> ?z)), (?link @ [], ?z, ?c)]"
    using export_link_match_tail [OF assms(1-4), of True ?z]
    by (simp only: o list.map prod.case append_assoc)
  have e: "ms export_link_pattern False [] Map.empty = []"
    by (simp add: export_link_pattern_def ms_Seq_Lit_fail del: ms.simps)
  have "sub_from export_link_pattern (export_replace_link files cur) True (?link @ ?z)
        = export_replace_link files cur (?link @ ?z) (?c(3 \<mapsto> ?z))
          @ sub_from export_link_pattern (export_replace_link files cur) False []"
    by (rule sub_from_head [OF m]) simp
  then have "process_links files (?link @ ?z) cur = export_replace_link files cur (?link @ ?z) (?c(3 \<mapsto> ?z))"
    by (simp add: process_links_def re_sub_def e del: ms.simps)
  also have "\<dots> = ''['' @ t @ '' '' @ ''{'' @ sps @ ''#'' @ i @ ''}'' @ '']('' @ u @ '')''"
    using assms(5) strip_braced [OF an(1), of "sps @ ''#'' @ i"]
    by (simp add: export_replace_link_def Let_def group_def str_of_def truthy_def filename_of_url
           del: split.simps contains.simps)
  finally show ?thesis by simp
qed

lemma name_chr_not_hash: "is_name_chr x \<Longrightarrow> x \<noteq> CHR ''#''"
  by (auto simp: is_name_chr_def is_word_def)

lemma underscore_name_chr: "is_name_chr CHR ''_''"
  by (simp add: is_name_chr_def is_word_def)

lemma export_registered:
  assumes b: "b \<in> set FILES" and t: "t \<noteq> []" "CHR '']'' \<notin> set t"
    and s: "s \<noteq> []" "\<forall>x\<in>set s. is_name_chr x"
  shows "process_links FILES (''['' @ t @ '']('' @ b @ ''#'' @ s @ '')'') a =
           (if b = a then ''['' @ t @ ''](#'' @ s @ '')''
            else ''['' @ t @ ''](#'' @ replace ''.'' ''_'' b @ ''__'' @ s @ '')'')"
proof -
  let ?u = "b @ ''#'' @ s"
  have h: "CHR ''#'' \<notin> set s" "CHR '')'' \<notin> set s"
    using s(2) name_chr_not_hash name_chr_not_paren by blast+
  have u: "?u \<noteq> []" "CHR '')'' \<notin> set ?u"
    using registered_facts(4) [OF b] h by simp_all
  have sp: "split CHR ''#'' (b @ CHR ''#'' # s) = [b, s]"
    using split_append_sep [OF registered_facts(3) [OF b], of s] split_no_sep [OF h(1)] by simp
  have c: "contains ''.md'' ?u" "\<not> startswith ?u ''http''"
    using registered_facts(1,2) [OF b] by blast+
  have "process_links FILES (''['' @ t @ '']('' @ ?u @ '')'') a =
          export_replace_link FILES a (''['' @ t @ '']('' @ ?u @ '')'') [1 \<mapsto> t, 2 \<mapsto> ?u]"
    by (rule process_links_plain [OF t u])
  also have "\<dots> = (if b = a then ''['' @ t @ ''](#'' @ s @ '')''
            else ''['' @ t @ ''](#'' @ replace ''.'' ''_'' b @ ''__'' @ s @ '')'')"
  proof (cases "b = a")
    case True
    have "export_replace_link FILES b (''['' @ t @ '']('' @ ?u @ '')'') [1 \<mapsto> t, 2 \<mapsto> ?u]
            = ''['' @ t @ ''](#'' @ s @ '')''"
      using b s(1) c
      by (simp add: export_replace_link_def Let_def group_def str_of_def truthy_def sp
               del: split.simps contains.simps startswith.simps replace.simps)
    with True show ?thesis by (simp only: if_True refl simp_thms)
  next
    case False
    then show ?thesis
      using b s(1) c
      by (simp add: export_replace_link_def Let_def group_def str_of_def truthy_def sp
               del: split.simps contains.simps startswith.simps replace.simps)
  qed
  finally show ?thesis by simp
qed

lemma import_registered:
  assumes b: "b \<in> set FILES" and t: "t \<noteq> []" "CHR '']'' \<notin> set t"
    and s: "s \<noteq> []" "\<forall>x\<in>set s. is_name_chr x" and ab: "a \<noteq> b"
  shows "restore_links FILES [''['' @ t @ ''](#'' @ replace ''.'' ''_'' b @ ''__'' @ s @ '')''] a
           = [''['' @ t @ '']('' @ b @ ''#'' @ s @ '')'']"
proof -
  let ?anc = "replace ''.'' ''_'' b @ ''__'' @ s"
  have n: "?anc \<noteq> []" "\<forall>x\<in>set ?anc. is_name_chr x"
    using registered_safe [OF b] s underscore_name_chr by (auto simp del: replace.simps)
  have "restore_links FILES [''['' @ t @ ''](#'' @ ?anc @ '')''] a
      = [import_replace_link FILES a (''['' @ t @ ''](#'' @ ?anc @ '')'') [1 \<mapsto> t, 2 \<mapsto> ?anc]]"
    by (rule restore_links_plain [OF t n])
  also have "\<dots> = [''['' @ t @ '']('' @ b @ ''#'' @ s @ '')'']"
    using registered_target [OF b, of s] registered_facts(5) [OF b] ab s(1)
    by (simp add: import_replace_link_def Let_def group_def str_of_def truthy_def
             del: replace.simps find_target.simps)
  finally show ?thesis by (simp del: replace.simps)
qed

text \<open>
  Claim C8, as stated: a link whose target is not a registered unit is returned unchanged
  by the export. With an attribute annotation after it, such a link is rewritten: the
  annotation moves into the visible text.
\<close>

theorem unresolvable_references_counterexample:
  "takeWhile (\<lambda>x. x \<noteq> CHR ''#'') ''http://example.org'' \<notin> set FILES
   \<and> process_links FILES ''[Go](http://example.org){ #y }'' ''introduction.md''
       = ''[Go { #y }](http://example.org)''
   \<and> process_links FILES ''[Go](http://example.org){ #y }'' ''introduction.md''
       \<noteq> ''[Go](http://example.org){ #y }''"
  by code_simp

text \<open>
  Claim C8, amended. Export: a link without annotation whose target (the part of the
  address before the first \<open>#\<close>) is not a registered unit is returned unchanged; with
  an annotation, the address is kept and the annotation, stripped, is appended to the
  visible text after a space. Import: a reference \<^verbatim>\<open>[t](#a)\<close> whose anchor \<open>a\<close> is not the
  encoded name of a registered unit, nor such a name followed by \<open>__\<close>, is returned
  unchanged. Neither function has an operation that raises.
\<close>

theorem unresolvable_references_unchanged:
  assumes "t \<noteq> []" "CHR '']'' \<notin> set t"
  shows "(u \<noteq> [] \<and> CHR '')'' \<notin> set u \<and> takeWhile (\<lambda>x. x \<noteq> CHR ''#'') u \<notin> set files \<longrightarrow>
            process_links files (''['' @ t @ '']('' @ u @ '')'') cur = ''['' @ t @ '']('' @ u @ '')'')
       \<and> (u \<noteq> [] \<and> CHR '')'' \<notin> set u \<and> takeWhile (\<lambda>x. x \<noteq> CHR ''#'') u \<notin> set files
            \<and> (\<forall>x\<in>set ws. is_space x) \<and> (\<forall>x\<in>set sps. x = CHR '' '')
            \<and> i \<noteq> [] \<and> CHR ''}'' \<notin> set i \<longrightarrow>
            process_links files (''['' @ t @ '']('' @ u @ '')'' @ ws @ ''{'' @ sps @ ''#'' @ i @ ''}'') cur
              = ''['' @ t @ '' '' @ ''{'' @ sps @ ''#'' @ i @ ''}'' @ '']('' @ u @ '')'')
       \<and> (a \<noteq> [] \<and> (\<forall>x\<in>set a. is_name_chr x)
            \<and> (\<forall>f\<in>set files. a \<noteq> replace ''.'' ''_'' f
                   \<and> \<not> startswith a (replace ''.'' ''_'' f @ ''__'')) \<longrightarrow>
            restore_links files [''['' @ t @ ''](#'' @ a @ '')''] cur = [''['' @ t @ ''](#'' @ a @ '')''])"
proof (intro conjI impI)
  assume "u \<noteq> [] \<and> CHR '')'' \<notin> set u \<and> takeWhile (\<lambda>x. x \<noteq> CHR ''#'') u \<notin> set files"
  then show "process_links files (''['' @ t @ '']('' @ u @ '')'') cur = ''['' @ t @ '']('' @ u @ '')''"
    by (intro export_unregistered assms) simp_all
next
  assume "u \<noteq> [] \<and> CHR '')'' \<notin> set u \<and> takeWhile (\<lambda>x. x \<noteq> CHR ''#'') u \<notin> set files
            \<and> (\<forall>x\<in>set ws. is_space x) \<and> (\<forall>x\<in>set sps. x = CHR '' '')
            \<and> i \<noteq> [] \<and> CHR ''}'' \<notin> set i"
  then show "process_links files (''['' @ t @ '']('' @ u @ '')'' @ ws @ ''{'' @ sps @ ''#'' @ i @ ''}'') cur
              = ''['' @ t @ '' '' @ ''{'' @ sps @ ''#'' @ i @ ''}'' @ '']('' @ u @ '')''"
    by (intro export_unregistered_annotated assms) simp_all
next
  assume "a \<noteq> [] \<and> (\<forall>x\<in>set a. is_name_chr x)
            \<and> (\<forall>f\<in>set files. a \<noteq> replace ''.'' ''_'' f
                   \<and> \<not> startswith a (replace ''.'' ''_'' f @ ''__''))"
  then show "restore_links files [''['' @ t @ ''](#'' @ a @ '')''] cur = [''['' @ t @ ''](#'' @ a @ '')'']"
    by (intro import_unregistered assms) simp_all
qed

theorem unresolvable_references_unchanged_witness:
  "process_links FILES ''[Go](http://example.org)'' ''introduction.md'' = ''[Go](http://example.org)''
   \<and> process_links FILES ''[Go](http://example.org) { #y }'' ''introduction.md''
       = ''[Go { #y }](http://example.org)''
   \<and> restore_links FILES [''[Go](#overview)''] ''introduction.md'' = [''[Go](#overview)'']"
proof -
  have t: "''Go'' \<noteq> []" "CHR '']'' \<notin> set ''Go''" by simp_all
  have u: "''http://example.org'' \<noteq> [] \<and> CHR '')'' \<notin> set ''http://example.org''
        \<and> takeWhile (\<lambda>x. x \<noteq> CHR ''#'') ''http://example.org'' \<notin> set FILES"
    by (simp add: FILES_def)
  have n: "(\<forall>x\<in>set '' ''. is_space x) \<and> (\<forall>x\<in>set '' ''. x = CHR '' '')
        \<and> ''y '' \<noteq> [] \<and> CHR ''}'' \<notin> set ''y ''"
    by (simp add: is_space_def)
  have a: "''overview'' \<noteq> [] \<and> (\<forall>x\<in>set ''overview''. is_name_chr x)
        \<and> (\<forall>f\<in>set FILES. ''overview'' \<noteq> replace ''.'' ''_'' f
               \<and> \<not> startswith ''overview'' (replace ''.'' ''_'' f @ ''__''))"
    by (simp add: FILES_def is_name_chr_def is_word_def)
  note th = unresolvable_references_unchanged [OF t, of "''http://example.org''" FILES
      "''introduction.md''" "'' ''" "'' ''" "''y ''" "''overview''"]
  have 1: "process_links FILES ''[Go](http://example.org)'' ''introduction.md'' = ''[Go](http://example.org)''"
    using th u by simp
  have 2: "process_links FILES ''[Go](http://example.org) { #y }'' ''introduction.md''
       = ''[Go { #y }](http://example.org)''"
    using th u n by simp
  have 3: "restore_links FILES [''[Go](#overview)''] ''introduction.md'' = [''[Go](#overview)'']"
    using th a by simp
  show ?thesis using 1 2 3 by simp
qed

text \<open>
  Claim C1, as stated: for registered units \<open>a\<close> and \<open>b\<close> and every anchor string \<open>s\<close>,
  decoding the encoded link to \<open>b#s\<close> gives the link back (the form \<open>#s\<close> when \<open>a = b\<close>).
  It fails for an anchor with a character that the pattern of the decoder does not
  accept, here \<open>&\<close>, and, in the same unit, for an anchor that is itself of the
  encoded form.
\<close>

theorem link_codec_counterexample:
  "''introduction.md'' \<in> set FILES \<and> ''validity.md'' \<in> set FILES
   \<and> restore_links FILES [process_links FILES ''[T](validity.md#q&a)'' ''introduction.md'']
        ''introduction.md'' \<noteq> [''[T](validity.md#q&a)'']
   \<and> restore_links FILES [process_links FILES ''[T](introduction.md#validity_md__x)'' ''introduction.md'']
        ''introduction.md'' \<noteq> [''[T](#validity_md__x)'']"
  by code_simp

text \<open>
  Claim C1, amended: for registered units \<open>a\<close> and \<open>b\<close>, a link text \<open>t\<close> (not empty,
  without \<open>]\<close>) and an anchor \<open>s\<close> that is not empty and made of word characters, \<open>.\<close>
  and \<open>-\<close> only: when \<open>a\<close> differs from \<open>b\<close>, decoding the encoded link to \<open>b#s\<close>
  gives the link to \<open>b#s\<close> back; when \<open>a\<close> equals \<open>b\<close> and \<open>s\<close> is not the encoded name
  of a registered unit nor such a name followed by \<open>__\<close>, it gives the same-unit link to
  \<open>#s\<close>.
\<close>

theorem link_codec_round_trip:
  assumes "a \<in> set FILES" "b \<in> set FILES" "t \<noteq> []" "CHR '']'' \<notin> set t"
    and "s \<noteq> []" "\<forall>x\<in>set s. is_name_chr x"
  shows "(a \<noteq> b \<longrightarrow>
           restore_links FILES [process_links FILES (''['' @ t @ '']('' @ b @ ''#'' @ s @ '')'') a] a
             = [''['' @ t @ '']('' @ b @ ''#'' @ s @ '')''])
       \<and> (a = b \<and> (\<forall>f\<in>set FILES. s \<noteq> replace ''.'' ''_'' f
                        \<and> \<not> startswith s (replace ''.'' ''_'' f @ ''__'')) \<longrightarrow>
           restore_links FILES [process_links FILES (''['' @ t @ '']('' @ b @ ''#'' @ s @ '')'') a] a
             = [''['' @ t @ ''](#'' @ s @ '')''])"
proof (intro conjI impI)
  assume "a \<noteq> b"
  then show "restore_links FILES [process_links FILES (''['' @ t @ '']('' @ b @ ''#'' @ s @ '')'') a] a
             = [''['' @ t @ '']('' @ b @ ''#'' @ s @ '')'']"
    using export_registered [OF assms(2-6), of a] import_registered [OF assms(2-6), of a]
    by (simp del: replace.simps)
next
  assume h: "a = b \<and> (\<forall>f\<in>set FILES. s \<noteq> replace ''.'' ''_'' f
                        \<and> \<not> startswith s (replace ''.'' ''_'' f @ ''__''))"
  then have "process_links FILES (''['' @ t @ '']('' @ b @ ''#'' @ s @ '')'') a = ''['' @ t @ ''](#'' @ s @ '')''"
    using export_registered [OF assms(2-6), of a] by (simp del: replace.simps)
  moreover have "restore_links FILES [''['' @ t @ ''](#'' @ s @ '')''] a = [''['' @ t @ ''](#'' @ s @ '')'']"
    using h by (intro import_unregistered assms(3-6)) blast
  ultimately show "restore_links FILES [process_links FILES (''['' @ t @ '']('' @ b @ ''#'' @ s @ '')'') a] a
             = [''['' @ t @ ''](#'' @ s @ '')'']"
    by (simp only:)
qed

theorem link_codec_round_trip_witness:
  "''introduction.md'' \<in> set FILES \<and> ''validity.md'' \<in> set FILES
   \<and> restore_links FILES [process_links FILES ''[T](validity.md#sec-1)'' ''introduction.md'']
        ''introduction.md'' = [''[T](validity.md#sec-1)'']
   \<and> restore_links FILES [process_links FILES ''[T](introduction.md#sec-1)'' ''introduction.md'']
        ''introduction.md'' = [''[T](#sec-1)'']"
proof -
  have r: "''introduction.md'' \<in> set FILES" "''validity.md'' \<in> set FILES"
    by (simp_all add: FILES_def)
  have t: "''T'' \<noteq> []" "CHR '']'' \<notin> set ''T''" by simp_all
  have s: "''sec-1'' \<noteq> []" "\<forall>x\<in>set ''sec-1''. is_name_chr x"
    by (simp_all add: is_name_chr_def is_word_def)
  have f: "\<forall>f\<in>set FILES. ''sec-1'' \<noteq> replace ''.'' ''_'' f
             \<and> \<not> startswith ''sec-1'' (replace ''.'' ''_'' f @ ''__'')"
    by (simp add: FILES_def)
  have d: "''introduction.md'' \<noteq> ''validity.md''" by simp
  have 1: "restore_links FILES [process_links FILES ''[T](validity.md#sec-1)'' ''introduction.md'']
        ''introduction.md'' = [''[T](validity.md#sec-1)'']"
    using link_codec_round_trip [OF r(1) r(2) t s] d by simp
  have 2: "restore_links FILES [process_links FILES ''[T](introduction.md#sec-1)'' ''introduction.md'']
        ''introduction.md'' = [''[T](#sec-1)'']"
    using link_codec_round_trip [OF r(1) r(1) t s] f by simp
  show ?thesis using r 1 2 by simp
qed

section \<open>Import: writing the units\<close>

text \<open>
  Claim C9, as stated: the files of the units are written only after all units have
  been rebuilt with success, so a run that an exception ends leaves no unit file
  changed in part. In \<open>dotted_doc\<close> the second unit is named \<^verbatim>\<open>..\<close>: the run replaces the
  text of \<^verbatim>\<open>docs/introduction.md\<close> and then ends with \<open>IsADirectoryError\<close>, since
  \<^verbatim>\<open>docs/..\<close> is a directory. On the disk with room for nine characters of the second
  unit, the run on \<open>sample_doc\<close> writes the first unit, ends with \<open>OSError\<close> and leaves
  in \<^verbatim>\<open>docs/validity.md\<close> the first nine characters of the decoded text, a link cut in
  the middle.
\<close>

theorem import_atomicity_counterexample:
  "process_content dotted_doc = Inr [(''introduction.md'', [''hello'']), (''..'', [''x''])]
   \<and> nodes docs_disk ''docs/introduction.md'' = Some (File ''old'')
   \<and> fst (import_main (Inr dotted_doc) docs_disk) = Some IsADirectoryError
   \<and> nodes (snd (import_main (Inr dotted_doc) docs_disk)) ''docs/introduction.md'' = Some (File ''hello'')
   \<and> fst (import_main (Inr sample_doc) full_disk) = Some OSError
   \<and> nodes (snd (import_main (Inr sample_doc) full_disk)) ''docs/introduction.md'' = Some (File ''hello'')
   \<and> nodes (snd (import_main (Inr sample_doc) full_disk)) ''docs/validity.md'' = Some (File ''[T](intro'')"
  by code_simp

text \<open>
  The paths of the units: \<open>os.path.join\<close> with the directory of the units maps
  different names to different paths, none of them the path of the debug copy. A write
  changes no other path; the table of \<open>process_content\<close> has every name once.
\<close>

lemma startswith_slash: "startswith a ''/'' = (\<exists>t. a = CHR ''/'' # t)"
  by (cases a) auto

lemma filepath_eq: "filepath a = (if startswith a ''/'' then a else ''docs/'' @ a)"
  by (simp add: filepath_def path_join_def DOCS_DIR_def endswith_def)

lemma filepath_inj: "filepath a = filepath b \<Longrightarrow> a = b"
  by (auto simp: filepath_eq startswith_slash split: if_splits)

lemma filepath_not_debug: "filepath a \<noteq> ''debug_import_full.md''"
  by (auto simp: filepath_eq startswith_slash split: if_splits)

lemma write_file_other: "write_file d p s = (r, d') \<Longrightarrow> q \<noteq> p \<Longrightarrow> nodes d' q = nodes d q"
  by (auto simp: write_file_def open_w_def f_write_def split: if_splits option.splits sum.splits)

lemma write_file_ok: "write_file d p s = (None, d') \<Longrightarrow> nodes d' p = Some (File s)"
  by (auto simp: write_file_def open_w_def f_write_def split: if_splits option.splits sum.splits)

lemma write_file_err:
  "write_file d p s = (Some e, d')
   \<Longrightarrow> nodes d' p = nodes d p \<or> (\<exists>n<length s. nodes d' p = Some (File (take n s)))"
  by (auto simp: write_file_def open_w_def f_write_def split: if_splits option.splits sum.splits)

lemma import_loop_other:
  "import_loop d items = (r, d') \<Longrightarrow> q \<notin> filepath ` fst ` set items \<Longrightarrow> nodes d' q = nodes d q"
proof (induction items arbitrary: d)
  case Nil
  then show ?case by simp
next
  case (Cons item items)
  obtain r1 d1 where w: "write_unit d item = (r1, d1)" by (cases "write_unit d item")
  from Cons.prems(2) have q: "q \<noteq> filepath (fst item)" "q \<notin> filepath ` fst ` set items" by auto
  from w q(1) have 1: "nodes d1 q = nodes d q"
    unfolding write_unit_def by (rule write_file_other)
  show ?case
  proof (cases r1)
    case None
    with w Cons.prems(1) have "import_loop d1 items = (r, d')" by simp
    from Cons.IH [OF this q(2)] 1 show ?thesis by simp
  next
    case (Some e)
    with w Cons.prems(1) have "d' = d1" by simp
    with 1 show ?thesis by simp
  qed
qed

lemma import_loop_outcome:
  assumes "distinct (map fst items)" and "import_loop d items = (r, d')"
  shows "\<exists>finished rest. items = finished @ rest
      \<and> (\<forall>it\<in>set finished. written d' it)
      \<and> (\<forall>it\<in>set (tl rest). untouched d d' it)
      \<and> (r = None) = (rest = [])
      \<and> (rest \<noteq> [] \<longrightarrow> untouched d d' (hd rest) \<or> cut_short d' (hd rest))"
  using assms
proof (induction items arbitrary: d)
  case Nil
  then show ?case by simp
next
  case (Cons item items)
  obtain r1 d1 where w: "write_unit d item = (r1, d1)" by (cases "write_unit d item")
  from Cons.prems(1) have dist: "distinct (map fst items)" and new: "fst item \<notin> fst ` set items"
    by auto
  have other: "nodes d1 (filepath (fst it)) = nodes d (filepath (fst it))" if "it \<in> set items" for it
  proof -
    from that new have "fst it \<noteq> fst item" by (metis imageI)
    then have "filepath (fst it) \<noteq> filepath (fst item)" using filepath_inj by blast
    with w show ?thesis unfolding write_unit_def by (rule write_file_other)
  qed
  show ?case
  proof (cases r1)
    case (Some e)
    with w Cons.prems(2) have r: "r = Some e" and d': "d' = d1" by simp_all
    from w Some have "write_file d (filepath (fst item)) (restore_unit (fst item) (snd item)) = (Some e, d1)"
      by (simp add: write_unit_def)
    from write_file_err [OF this] have "untouched d d1 item \<or> cut_short d1 item"
      by (auto simp: untouched_def cut_short_def)
    moreover have "\<forall>it\<in>set items. untouched d d1 it" using other by (simp add: untouched_def)
    ultimately have "item # items = [] @ (item # items)
      \<and> (\<forall>it\<in>set []. written d' it)
      \<and> (\<forall>it\<in>set (tl (item # items)). untouched d d' it)
      \<and> (r = None) = (item # items = [])
      \<and> (item # items \<noteq> [] \<longrightarrow> untouched d d' (hd (item # items)) \<or> cut_short d' (hd (item # items)))"
      using r d' by simp
    then show ?thesis by blast
  next
    case None
    with w Cons.prems(2) have loop: "import_loop d1 items = (r, d')" by simp
    from Cons.IH [OF dist loop] obtain finished' rest where
      i: "items = finished' @ rest" and
      a: "\<forall>it\<in>set finished'. written d' it" and
      b: "\<forall>it\<in>set (tl rest). untouched d1 d' it" and
      c: "(r = None) = (rest = [])" and
      e: "rest \<noteq> [] \<longrightarrow> untouched d1 d' (hd rest) \<or> cut_short d' (hd rest)"
      by blast
    have "filepath (fst item) \<notin> filepath ` fst ` set items"
      using new filepath_inj by (auto simp: image_iff)
    from import_loop_other [OF loop this] w None
    have first: "written d' item"
      unfolding write_unit_def written_def by (simp add: write_file_ok)
    have b': "\<forall>it\<in>set (tl rest). untouched d d' it"
    proof
      fix it assume m: "it \<in> set (tl rest)"
      then have "it \<in> set items" using i by (cases rest) auto
      from other [OF this] b m show "untouched d d' it" by (simp add: untouched_def)
    qed
    have e': "rest \<noteq> [] \<longrightarrow> untouched d d' (hd rest) \<or> cut_short d' (hd rest)"
    proof
      assume ne: "rest \<noteq> []"
      then have "hd rest \<in> set items" using i by simp
      from other [OF this] e ne show "untouched d d' (hd rest) \<or> cut_short d' (hd rest)"
        by (auto simp: untouched_def)
    qed
    have "item # items = (item # finished') @ rest
      \<and> (\<forall>it\<in>set (item # finished'). written d' it)
      \<and> (\<forall>it\<in>set (tl rest). untouched d d' it)
      \<and> (r = None) = (rest = [])
      \<and> (rest \<noteq> [] \<longrightarrow> untouched d d' (hd rest) \<or> cut_short d' (hd rest))"
      using i a first b' c e' by simp
    then show ?thesis by blast
  qed
qed

lemma save_buffer_distinct:
  "distinct (map fst (files_content st)) \<Longrightarrow> distinct (map fst (save_buffer st))"
  by (simp add: save_buffer_def distinct_update)

lemma process_line_files:
  "process_line st l = Inr st'
   \<Longrightarrow> files_content st' = files_content st \<or> files_content st' = save_buffer st"
  by (auto simp: process_line_def Let_def split: option.splits sum.splits prod.splits if_splits)

lemma run_lines_distinct:
  "distinct (map fst (files_content st)) \<Longrightarrow> run_lines st ls = Inr st'
   \<Longrightarrow> distinct (map fst (files_content st'))"
proof (induction ls arbitrary: st)
  case Nil
  then show ?case by simp
next
  case (Cons l ls)
  from Cons.prems(2) obtain st1 where 1: "process_line st l = Inr st1" and 2: "run_lines st1 ls = Inr st'"
    by (auto split: sum.splits)
  from process_line_files [OF 1] Cons.prems(1) have "distinct (map fst (files_content st1))"
    by (auto simp: save_buffer_distinct)
  from Cons.IH [OF this 2] show ?case .
qed

lemma process_content_distinct: "process_content content = Inr items \<Longrightarrow> distinct (map fst items)"
proof -
  assume "process_content content = Inr items"
  then obtain st where r: "run_lines initial_state (split_lines content) = Inr st"
    and i: "items = save_buffer st"
    by (auto simp: process_content_def split: sum.splits)
  have "distinct (map fst (files_content initial_state))" by (simp add: initial_state_def)
  from run_lines_distinct [OF this r] show ?thesis by (simp add: i save_buffer_distinct)
qed

lemma process_content_total: "\<exists>items. process_content content = Inr items"
  using run_lines_seeded [OF seeded_initial, of "split_lines content"]
  by (auto simp: process_content_def)

text \<open>
  Claim C9. When the converter raises, the disk is left as it was. Otherwise
  \<open>process_content\<close> returns the units of the whole document (it never raises) before
  any file of a unit is opened, and, whatever the disk, the run leaves the units split
  in two parts, in the order of the loop. The file of every unit of the first part
  holds the completely decoded text of the unit. The first unit of the second part,
  if there is one, is where the run stopped: the run has ended with an exception, and
  the file of that unit holds what it held before the run or a proper beginning of
  its decoded text. The files of the units after it hold what they held before the
  run. A run that ends without an exception has written every unit; a run that ends
  with an exception has stopped at some unit, unless the document has no unit. No
  path other than the debug copy and the files of the units is changed.
\<close>

theorem import_atomicity:
  "import_main (Inl e) d = (Some e, d)
   \<and> (\<exists>items. process_content content = Inr items
        \<and> (\<forall>r d'. import_main (Inr content) d = (r, d') \<longrightarrow>
             (\<exists>finished rest. items = finished @ rest
                \<and> (\<forall>it\<in>set finished. written d' it)
                \<and> (\<forall>it\<in>set (tl rest). untouched d d' it)
                \<and> (rest \<noteq> [] \<longrightarrow> r \<noteq> None \<and> (untouched d d' (hd rest) \<or> cut_short d' (hd rest)))
                \<and> (r \<noteq> None \<longrightarrow> rest \<noteq> [] \<or> items = []))
           \<and> (\<forall>q. q \<noteq> ''debug_import_full.md'' \<and> q \<notin> filepath ` fst ` set items
                  \<longrightarrow> nodes d' q = nodes d q)))"
proof -
  obtain items where i: "process_content content = Inr items"
    using process_content_total by blast
  have dist: "distinct (map fst items)" using i by (rule process_content_distinct)
  have main: "\<exists>finished rest. items = finished @ rest
                \<and> (\<forall>it\<in>set finished. written d' it)
                \<and> (\<forall>it\<in>set (tl rest). untouched d d' it)
                \<and> (rest \<noteq> [] \<longrightarrow> r \<noteq> None \<and> (untouched d d' (hd rest) \<or> cut_short d' (hd rest)))
                \<and> (r \<noteq> None \<longrightarrow> rest \<noteq> [] \<or> items = [])"
    if m: "import_main (Inr content) d = (r, d')" for r d'
  proof -
    obtain r1 d1 where w: "write_file d ''debug_import_full.md'' content = (r1, d1)"
      by (cases "write_file d ''debug_import_full.md'' content")
    have same: "nodes d1 (filepath a) = nodes d (filepath a)" for a
      using w filepath_not_debug by (rule write_file_other)
    show ?thesis
    proof (cases r1)
      case (Some e1)
      with w m have r: "r = Some e1" and d': "d' = d1" by (simp_all add: import_main_def)
      have "items = [] @ items
                \<and> (\<forall>it\<in>set []. written d' it)
                \<and> (\<forall>it\<in>set (tl items). untouched d d' it)
                \<and> (items \<noteq> [] \<longrightarrow> r \<noteq> None \<and> (untouched d d' (hd items) \<or> cut_short d' (hd items)))
                \<and> (r \<noteq> None \<longrightarrow> items \<noteq> [] \<or> items = [])"
        using r d' same by (simp add: untouched_def)
      then show ?thesis by blast
    next
      case None
      with w m i have loop: "import_loop d1 items = (r, d')" by (simp add: import_main_def)
      from import_loop_outcome [OF dist loop] obtain finished rest where
        "items = finished @ rest" "\<forall>it\<in>set finished. written d' it"
        "\<forall>it\<in>set (tl rest). untouched d1 d' it" "(r = None) = (rest = [])"
        "rest \<noteq> [] \<longrightarrow> untouched d1 d' (hd rest) \<or> cut_short d' (hd rest)"
        by blast
      then have "items = finished @ rest
                \<and> (\<forall>it\<in>set finished. written d' it)
                \<and> (\<forall>it\<in>set (tl rest). untouched d d' it)
                \<and> (rest \<noteq> [] \<longrightarrow> r \<noteq> None \<and> (untouched d d' (hd rest) \<or> cut_short d' (hd rest)))
                \<and> (r \<noteq> None \<longrightarrow> rest \<noteq> [] \<or> items = [])"
        using same by (simp add: untouched_def)
      then show ?thesis by blast
    qed
  qed
  have frame: "nodes d' q = nodes d q"
    if m: "import_main (Inr content) d = (r, d')"
      and q: "q \<noteq> ''debug_import_full.md''" "q \<notin> filepath ` fst ` set items" for r d' q
  proof -
    obtain r1 d1 where w: "write_file d ''debug_import_full.md'' content = (r1, d1)"
      by (cases "write_file d ''debug_import_full.md'' content")
    from w q(1) have 1: "nodes d1 q = nodes d q" by (rule write_file_other)
    show ?thesis
    proof (cases r1)
      case (Some e1)
      with w m have "d' = d1" by (simp add: import_main_def)
      with 1 show ?thesis by simp
    next
      case None
      with w m i have "import_loop d1 items = (r, d')" by (simp add: import_main_def)
      from import_loop_other [OF this q(2)] 1 show ?thesis by simp
    qed
  qed
  have body: "\<forall>r d'. import_main (Inr content) d = (r, d') \<longrightarrow>
             (\<exists>finished rest. items = finished @ rest
                \<and> (\<forall>it\<in>set finished. written d' it)
                \<and> (\<forall>it\<in>set (tl rest). untouched d d' it)
                \<and> (rest \<noteq> [] \<longrightarrow> r \<noteq> None \<and> (untouched d d' (hd rest) \<or> cut_short d' (hd rest)))
                \<and> (r \<noteq> None \<longrightarrow> rest \<noteq> [] \<or> items = []))
           \<and> (\<forall>q. q \<noteq> ''debug_import_full.md'' \<and> q \<notin> filepath ` fst ` set items
                  \<longrightarrow> nodes d' q = nodes d q)"
  proof (intro allI impI conjI)
    fix r d' assume m: "import_main (Inr content) d = (r, d')"
    show "\<exists>finished rest. items = finished @ rest
                \<and> (\<forall>it\<in>set finished. written d' it)
                \<and> (\<forall>it\<in>set (tl rest). untouched d d' it)
                \<and> (rest \<noteq> [] \<longrightarrow> r \<noteq> None \<and> (untouched d d' (hd rest) \<or> cut_short d' (hd rest)))
                \<and> (r \<noteq> None \<longrightarrow> rest \<noteq> [] \<or> items = [])"
      by (rule main [OF m])
    fix q assume "q \<noteq> ''debug_import_full.md'' \<and> q \<notin> filepath ` fst ` set items"
    then show "nodes d' q = nodes d q" using frame [OF m] by simp
  qed
  have "import_main (Inl e) d = (Some e, d)" by (simp add: import_main_def)
  with i body show ?thesis by blast
qed

lemma sample_items:
  "process_content sample_doc
     = Inr [(''introduction.md'', [''hello'']), (''validity.md'', [''[T](#introduction_md__x)''])]"
  by code_simp

theorem import_atomicity_witness:
  "import_main (Inl ConverterError) docs_disk = (Some ConverterError, docs_disk)
   \<and> fst (import_main (Inr sample_doc) docs_disk) = None
   \<and> nodes (snd (import_main (Inr sample_doc) docs_disk)) ''docs/introduction.md'' = Some (File ''hello'')
   \<and> nodes (snd (import_main (Inr sample_doc) docs_disk)) ''docs/validity.md''
       = Some (File ''[T](introduction.md#x)'')
   \<and> fst (import_main (Inr sample_doc) full_disk) = Some OSError
   \<and> cut_short (snd (import_main (Inr sample_doc) full_disk))
        (''validity.md'', [''[T](#introduction_md__x)''])"
proof -
  let ?u1 = "(''introduction.md'', [''hello''])"
  let ?u2 = "(''validity.md'', [''[T](#introduction_md__x)''])"
  let ?r = "fst (import_main (Inr sample_doc) docs_disk)"
  let ?d = "snd (import_main (Inr sample_doc) docs_disk)"
  have ok: "?r = None" by code_simp
  from import_atomicity [of ConverterError docs_disk sample_doc]
  obtain items finished rest where e: "import_main (Inl ConverterError) docs_disk = (Some ConverterError, docs_disk)"
    and i: "process_content sample_doc = Inr items"
    and s: "items = finished @ rest"
    and a: "\<forall>it\<in>set finished. written ?d it"
    and c: "?r \<noteq> None \<or> rest = []"
    by (metis prod.collapse)
  from c ok have "rest = []" by simp
  with s i have "finished = [?u1, ?u2]"
    by (simp add: sample_items)
  with a have "written ?d ?u1" and "written ?d ?u2" by simp_all
  moreover have "filepath ''introduction.md'' = ''docs/introduction.md''"
      "filepath ''validity.md'' = ''docs/validity.md''"
    by code_simp+
  moreover have "restore_unit ''introduction.md'' [''hello''] = ''hello''"
      "restore_unit ''validity.md'' [''[T](#introduction_md__x)''] = ''[T](introduction.md#x)''"
    by code_simp+
  ultimately have good: "nodes ?d ''docs/introduction.md'' = Some (File ''hello'')"
      "nodes ?d ''docs/validity.md'' = Some (File ''[T](introduction.md#x)'')"
    by (simp_all add: written_def)
  let ?r2 = "fst (import_main (Inr sample_doc) full_disk)"
  let ?d2 = "snd (import_main (Inr sample_doc) full_disk)"
  have bad: "?r2 = Some OSError" by code_simp
  have changed: "\<not> untouched full_disk ?d2 ?u2" by code_simp
  from import_atomicity [of ConverterError full_disk sample_doc]
  obtain items2 finished2 rest2 where i2: "process_content sample_doc = Inr items2"
    and s2: "items2 = finished2 @ rest2"
    and b2: "\<forall>it\<in>set (tl rest2). untouched full_disk ?d2 it"
    and h2: "rest2 = [] \<or> untouched full_disk ?d2 (hd rest2) \<or> cut_short ?d2 (hd rest2)"
    and n2: "?r2 = None \<or> rest2 \<noteq> [] \<or> items2 = []"
    by (metis prod.collapse)
  from i2 have items2: "items2 = [?u1, ?u2]" by (simp add: sample_items)
  with n2 bad have ne: "rest2 \<noteq> []" by simp
  from s2 items2 ne consider "rest2 = [?u1, ?u2]" | "rest2 = [?u2]"
    by (auto simp: append_eq_Cons_conv Cons_eq_append_conv)
  then have cut: "cut_short ?d2 ?u2"
  proof cases
    case 1
    with b2 have "untouched full_disk ?d2 ?u2" by simp
    with changed show ?thesis by simp
  next
    case 2
    with h2 changed show ?thesis by simp
  qed
  from e ok good bad cut show ?thesis by simp
qed

section \<open>Inline controls\<close>

lemma ms_needs: "(m, s', c') \<in> set (ms r b s c) \<Longrightarrow> needs r \<subseteq> set m"
proof (induction r arbitrary: b s c m s' c')
  case (Lit l)
  then show ?case by (auto split: if_splits)
next
  case (Seq r1 r2)
  from Seq.prems obtain m1 s1 c1 m2 where
    a: "(m1, s1, c1) \<in> set (ms r1 b s c)" and
    b: "(m2, s', c') \<in> set (ms r2 (b \<and> m1 = []) s1 c1)" and m: "m = m1 @ m2"
    by auto
  from Seq.IH(1) [OF a] Seq.IH(2) [OF b] m show ?case by auto
next
  case (Grp n r)
  from Grp.prems obtain c'' where "(m, s', c'') \<in> set (ms r b s c)" by auto
  from Grp.IH [OF this] show ?case by simp
qed simp_all

lemma no_match_without:
  assumes "q \<in> needs r" "q \<notin> set s"
  shows "ms r b s c = []"
proof (rule ccontr)
  assume "ms r b s c \<noteq> []"
  then obtain m s' c' where a: "(m, s', c') \<in> set (ms r b s c)"
    by (cases "ms r b s c") auto
  from ms_needs [OF a] assms(1) have "q \<in> set m" by blast
  moreover from ms_sound [OF a] have "set m \<subseteq> set s" by simp
  ultimately show False using assms(2) by blast
qed

lemma search_none_without:
  assumes "q \<in> needs r" "q \<notin> set s"
  shows "search_from r b s = None"
proof (rule search_from_NoneI)
  fix pre post b' assume "s = pre @ post"
  then have "q \<notin> set post" using assms(2) by simp
  then show "ms r b' post Map.empty = []" by (rule no_match_without [OF assms(1)])
qed

lemma sub_unchanged_without:
  assumes "q \<in> needs r" "q \<notin> set s"
  shows "sub_from r f b s = s"
proof (rule sub_from_no_match)
  fix pre post b' assume "s = pre @ post"
  then have "q \<notin> set post" using assms(2) by simp
  then show "ms r b' post Map.empty = []" by (rule no_match_without [OF assms(1)])
qed

lemma in_set_nonempty: "x \<in> set xs \<Longrightarrow> xs \<noteq> []"
  by auto

lemma ms_requires_prefix:
  assumes "ms (Seq (Lit l1) (Seq (Grp g (Seq (Lit l2) r)) r')) b u c \<noteq> []"
  shows "\<exists>v. u = l1 @ l2 @ v"
proof -
  from assms obtain m1 s1 c1 where a: "(m1, s1, c1) \<in> set (ms (Lit l1) b u c)"
      and r: "ms (Seq (Grp g (Seq (Lit l2) r)) r') (b \<and> m1 = []) s1 c1 \<noteq> []"
    using iffD1 [OF ms_Seq_nonempty] by blast
  from a have m1: "m1 = l1" by (auto split: if_splits)
  from ms_sound [OF a] m1 have u: "u = l1 @ s1" by simp
  from r obtain m2 s2 c2 where g: "(m2, s2, c2) \<in> set (ms (Grp g (Seq (Lit l2) r)) (b \<and> m1 = []) s1 c1)"
    using iffD1 [OF ms_Seq_nonempty] by blast
  then have "ms (Grp g (Seq (Lit l2) r)) (b \<and> m1 = []) s1 c1 \<noteq> []"
    by (rule in_set_nonempty)
  then have "ms (Seq (Lit l2) r) (b \<and> m1 = []) s1 c1 \<noteq> []"
    by (simp only: ms.simps(7) map_is_Nil_conv not_False_eq_True)
  then obtain m3 s3 c3 where l: "(m3, s3, c3) \<in> set (ms (Lit l2) (b \<and> m1 = []) s1 c1)"
    using iffD1 [OF ms_Seq_nonempty] by blast
  then have "m3 = l2" by (auto split: if_splits)
  with ms_sound [OF l] have "s1 = l2 @ s3" by simp
  with u show ?thesis by simp
qed

lemma no_straddle:
  assumes "q \<notin> set x" "q \<notin> set pre" "c0 \<noteq> c1"
  shows "\<not> startswith (x @ q # c1 # t) (pre @ q # c0 # rest)"
  using assms
proof (induction x arbitrary: pre)
  case Nil
  then show ?case by (cases pre) auto
next
  case (Cons a x)
  then show ?case by (cases pre) auto
qed

lemma contains_skip_quoted:
  assumes "q \<notin> set x" "q \<notin> set pre" "c0 \<noteq> c1"
  shows "contains (pre @ q # c0 # rest) (x @ q # c1 # t) = contains (pre @ q # c0 # rest) (q # c1 # t)"
  using assms(1)
proof (induction x)
  case Nil
  show ?case by simp
next
  case (Cons a x)
  have "\<not> startswith ((a # x) @ q # c1 # t) (pre @ q # c0 # rest)"
    by (rule no_straddle [OF Cons.prems assms(2,3)])
  with Cons show ?case by (simp del: startswith.simps)
qed

lemma contains_skip:
  "q \<notin> set x \<Longrightarrow> contains (q # r) (x @ t) = contains (q # r) t"
  by (induction x) auto

lemma startswith_drop_contains: "startswith (drop j w) sub \<Longrightarrow> contains sub w"
proof -
  assume "startswith (drop j w) sub"
  then obtain t where "drop j w = sub @ t" by (auto simp: startswith_iff)
  then have "w = take j w @ sub @ t" by (metis append_take_drop_id)
  then show ?thesis unfolding contains_iff by blast
qed

lemma ms_Grp_Lit_Many_then:
  assumes "\<forall>x\<in>set xs. p x" "ys = [] \<or> \<not> p (hd ys)" "n \<le> length xs"
    and rej: "\<And>x zs b c. p x \<Longrightarrow> ms r2 b (x # zs) c = []"
  shows "ms (Seq (Grp g (Seq (Lit l) (Many p n))) r2) b (l @ xs @ ys) c =
           map (\<lambda>(m2, s2, c2). (l @ xs @ m2, s2, c2)) (ms r2 (b \<and> l @ xs = []) ys (c(g \<mapsto> l @ xs)))"
proof -
  have "ms (Seq (Lit l) (Many p n)) b (l @ xs @ ys) c
      = map (\<lambda>(m2, s2, c2). (l @ m2, s2, c2))
          ((xs, ys, c) # map (\<lambda>j. (take j xs, drop j xs @ ys, c)) (rev [n ..< length xs]))"
    by (simp only: ms_Seq_Lit ms_Many_list [OF assms(1-3)])
  then have "ms (Seq (Grp g (Seq (Lit l) (Many p n))) r2) b (l @ xs @ ys) c =
          concat (map (\<lambda>(m1, s1, c1).
               map (\<lambda>(m2, s2, c2). (m1 @ m2, s2, c2)) (ms r2 (b \<and> m1 = []) s1 c1))
             (map (\<lambda>(m, s', c'). (m, s', c'(g \<mapsto> m)))
               (map (\<lambda>(m2, s2, c2). (l @ m2, s2, c2))
                 ((xs, ys, c) # map (\<lambda>j. (take j xs, drop j xs @ ys, c)) (rev [n ..< length xs])))))"
    by (simp only: ms.simps(5) ms.simps(7))
  also have "\<dots> = map (\<lambda>(m2, s2, c2). (l @ xs @ m2, s2, c2)) (ms r2 (b \<and> l @ xs = []) ys (c(g \<mapsto> l @ xs)))"
    by (simp add: drop_starts_with_class [OF assms(1) _ rej] del: ms.simps)
  finally show ?thesis .
qed

lemma concat_map_prefix_empty:
  "(\<And>x. x \<in> set xs \<Longrightarrow> f x = []) \<Longrightarrow> concat (map f (xs @ ys)) = concat (map f ys)"
  by (induction xs) auto

lemma ms_Many_backtrack:
  assumes p: "\<forall>x\<in>set xs. p x" and n: "n \<le> length xs"
    and later: "\<And>j b'. 0 < j \<Longrightarrow> ms r2 b' (drop j s) c = []"
    and here: "ms r2 (b \<and> xs = []) s c = (m2, s2, c2) # rest2"
  shows "\<exists>rest. ms (Seq (Many p n) r2) b (xs @ s) c = (xs @ m2, s2, c2) # rest"
proof -
  let ?k = "length (takeWhile p (xs @ s))"
  let ?F = "\<lambda>j. (\<lambda>(m1, s1, c1). map (\<lambda>(m2, s2, c2). (m1 @ m2, s2, c2)) (ms r2 (b \<and> m1 = []) s1 c1))
               (take j (xs @ s), drop j (xs @ s), c)"
  have k: "length xs \<le> ?k"
    using p by (simp add: takeWhile_append2)
  have "[n ..< length xs + (Suc ?k - length xs)] = [n ..< length xs] @ [length xs ..< length xs + (Suc ?k - length xs)]"
    using n by (rule upt_add_eq_append)
  moreover have "length xs + (Suc ?k - length xs) = Suc ?k" using k by simp
  moreover have "[length xs ..< Suc ?k] = length xs # [Suc (length xs) ..< Suc ?k]"
    using k by (simp add: upt_conv_Cons del: upt_Suc)
  ultimately have split: "[n ..< Suc ?k] = [n ..< length xs] @ length xs # [Suc (length xs) ..< Suc ?k]"
    by (simp only:)
  have "ms (Seq (Many p n) r2) b (xs @ s) c = concat (map ?F (rev [n ..< Suc ?k]))"
    by (simp only: ms.simps(5) ms.simps(3) map_map comp_def)
  also have "\<dots> = concat (map ?F (rev [Suc (length xs) ..< Suc ?k] @ length xs # rev [n ..< length xs]))"
    by (simp only: split rev_append rev.simps append_assoc append_Cons append_Nil)
  also have "\<dots> = concat (map ?F (length xs # rev [n ..< length xs]))"
  proof (rule concat_map_prefix_empty)
    fix j assume "j \<in> set (rev [Suc (length xs) ..< Suc ?k])"
    then have j: "length xs < j" by (auto simp del: upt_Suc)
    then have "drop j (xs @ s) = drop (j - length xs) s" by simp
    moreover have "ms r2 (b \<and> take j (xs @ s) = []) (drop (j - length xs) s) c = []"
      using j by (intro later) simp
    ultimately show "?F j = []" by (simp del: ms.simps)
  qed
  also have "\<dots> = ?F (length xs) @ concat (map ?F (rev [n ..< length xs]))" by (simp del: ms.simps)
  also have "?F (length xs) = map (\<lambda>(m2, s2, c2). (xs @ m2, s2, c2)) ((m2, s2, c2) # rest2)"
    using here by (simp del: ms.simps)
  finally show ?thesis by (simp del: ms.simps)
qed

lemma token_match:
  assumes "x \<noteq> []" "CHR '']'' \<notin> set x"
  shows "ms (Seq (Lit ''['') (Seq (Grp 1 (Seq (Lit l) (Many (not_chr CHR '']'') 1))) (Lit '']''))) b
            (''['' @ l @ x @ '']'') Map.empty
           = [(''['' @ l @ x @ '']'', [], [1 \<mapsto> l @ x])]"
proof -
  have "ms (Seq (Grp 1 (Seq (Lit l) (Many (not_chr CHR '']'') 1))) (Lit '']'')) b' (l @ x @ '']'') c
      = map (\<lambda>(m2, s2, c2). (l @ x @ m2, s2, c2)) (ms (Lit '']'') (b' \<and> l @ x = []) '']'' (c(1 \<mapsto> l @ x)))"
    for b' c using assms
    by (intro ms_Grp_Lit_Many_then) (auto simp: not_chr_def Suc_le_eq ms_Lit_Cons_reject simp del: ms.simps)
  then have 1: "ms (Seq (Grp 1 (Seq (Lit l) (Many (not_chr CHR '']'') 1))) (Lit '']'')) b' (l @ x @ '']'') c
      = [(l @ x @ '']'', [], c(1 \<mapsto> l @ x))]" for b' c
    by (simp only: ms_Lit_exact list.map prod.case)
  show ?thesis by (simp only: ms_Seq_Lit 1 list.map prod.case)
qed

lemma search_from_head:
  "ms r b (x # xs) Map.empty = y # rest \<Longrightarrow> search_from r b (x # xs) = Some y"
  by simp

lemma restore_cb_token:
  assumes "x \<noteq> []" "CHR '']'' \<notin> set x"
  shows "restore_checkbox_line (''['' @ ''cb-'' @ x @ '']'') = cb_element (''cb-'' @ x)"
proof -
  let ?line = "''['' @ ''cb-'' @ x @ '']''"
  have m: "ms cb_pattern b ?line Map.empty = [(?line, [], [1 \<mapsto> ''cb-'' @ x])]" for b
    unfolding cb_pattern_def by (rule token_match [OF assms])
  have "search_from cb_pattern True ?line \<noteq> None"
    using search_from_head [of cb_pattern True "CHR ''[''" "''cb-'' @ x @ '']''"] m [of True] by simp
  then have s: "re_search cb_pattern ?line \<noteq> None" by (simp add: re_search_def)
  have e: "ms cb_pattern False [] Map.empty = []"
    by (simp add: cb_pattern_def ms_Seq_Lit_fail del: ms.simps)
  have r: "re_sub cb_pattern replace_cb ?line = cb_element (''cb-'' @ x)"
    unfolding re_sub_def
    using sub_from_single [OF m [of True] _ e, of replace_cb]
    by (simp add: replace_cb_def group_def str_of_def)
  have n: "CHR '']'' \<notin> set (cb_element (''cb-'' @ x))"
    using assms(2) by (simp add: cb_element_def)
  have "search_from pledge_pattern True (cb_element (''cb-'' @ x)) = None"
    by (rule search_none_without [OF _ n]) (simp add: pledge_pattern_def)
  then have p: "re_search pledge_pattern (cb_element (''cb-'' @ x)) = None"
    by (simp add: re_search_def)
  show ?thesis
    using s by (simp only: restore_checkbox_line_def Let_def r p if_True simp_thms if_False)
qed

lemma restore_pledge_token:
  assumes "x \<noteq> []" "CHR '']'' \<notin> set x" "CHR ''['' \<notin> set x"
  shows "restore_checkbox_line (''['' @ ''pledge_'' @ x @ '']'') = pledge_element (''pledge_'' @ x)"
proof -
  let ?line = "''['' @ ''pledge_'' @ x @ '']''"
  have nc: "\<not> contains ''[cb-'' ?line"
    using contains_skip [OF assms(3), of "''cb-''" "'']''"] by simp
  have "search_from cb_pattern True ?line = None"
  proof (rule search_from_NoneI)
    fix pre post b' assume l: "?line = pre @ post"
    show "ms cb_pattern b' post Map.empty = []"
    proof (rule ccontr)
      assume "ms cb_pattern b' post Map.empty \<noteq> []"
      then obtain v where "post = ''['' @ ''cb-'' @ v"
        unfolding cb_pattern_def using ms_requires_prefix by blast
      with l have "?line = pre @ ''[cb-'' @ v" by simp
      then have "contains ''[cb-'' ?line" unfolding contains_iff by blast
      with nc show False by simp
    qed
  qed
  then have s: "re_search cb_pattern ?line = None" by (simp add: re_search_def)
  have m: "ms pledge_pattern b ?line Map.empty = [(?line, [], [1 \<mapsto> ''pledge_'' @ x])]" for b
    unfolding pledge_pattern_def by (rule token_match [OF assms(1,2)])
  have "search_from pledge_pattern True ?line \<noteq> None"
    using search_from_head [of pledge_pattern True "CHR ''[''" "''pledge_'' @ x @ '']''"] m [of True] by simp
  then have p: "re_search pledge_pattern ?line \<noteq> None" by (simp add: re_search_def)
  have e: "ms pledge_pattern False [] Map.empty = []"
    by (simp add: pledge_pattern_def ms_Seq_Lit_fail del: ms.simps)
  have r: "re_sub pledge_pattern replace_pledge ?line = pledge_element (''pledge_'' @ x)"
    unfolding re_sub_def
    using sub_from_single [OF m [of True] _ e, of replace_pledge]
    by (simp add: replace_pledge_def group_def str_of_def)
  show ?thesis
    using p by (simp only: restore_checkbox_line_def Let_def s r if_True simp_thms if_False)
qed

lemma cb_input_pattern_alt: "cb_input_pattern = input_pattern (''id='' @ [CHR 0x22]) ''cb-''"
  by (simp add: cb_input_pattern_def input_pattern_def)

lemma pledge_input_pattern_alt: "pledge_input_pattern = input_pattern (''name='' @ [CHR 0x22]) ''pledge_''"
  by (simp add: pledge_input_pattern_def input_pattern_def)

lemma attribute_match:
  assumes x: "x \<noteq> []" "CHR 0x22 \<notin> set x" and t: "CHR ''>'' \<notin> set tl'"
  shows "ms (Seq (Lit la) (Seq (Grp 1 (Seq (Lit lp) (Many (not_chr (CHR 0x22)) 1))) (Seq (Lit [CHR 0x22])
            (Seq (Many (not_chr CHR ''>'') 0) (Lit ''>''))))) b
           (la @ lp @ x @ [CHR 0x22] @ tl' @ ''>'') c
         = [(la @ lp @ x @ [CHR 0x22] @ tl' @ ''>'', [], c(1 \<mapsto> lp @ x))]"
proof -
  let ?R3 = "Seq (Many (not_chr CHR ''>'') 0) (Lit ''>'')"
  let ?R2 = "Seq (Lit [CHR 0x22]) ?R3"
  have "ms ?R3 b' (tl' @ ''>'') c' = map (\<lambda>(m2, s2, c2). (tl' @ m2, s2, c2)) (ms (Lit ''>'') (b' \<and> tl' = []) ''>'' c')"
    for b' c' using t
    by (intro ms_Many_then) (auto simp: not_chr_def ms_Lit_Cons_reject simp del: ms.simps)
  then have 3: "ms ?R3 b' (tl' @ ''>'') c' = [(tl' @ ''>'', [], c')]" for b' c'
    by (simp only: ms_Lit_exact list.map prod.case)
  have 2: "ms ?R2 b' ([CHR 0x22] @ tl' @ ''>'') c' = [([CHR 0x22] @ tl' @ ''>'', [], c')]" for b' c'
    by (simp only: ms_Seq_Lit 3 list.map prod.case)
  have "ms (Seq (Grp 1 (Seq (Lit lp) (Many (not_chr (CHR 0x22)) 1))) ?R2) b' (lp @ x @ [CHR 0x22] @ tl' @ ''>'') c'
      = map (\<lambda>(m2, s2, c2). (lp @ x @ m2, s2, c2))
          (ms ?R2 (b' \<and> lp @ x = []) ([CHR 0x22] @ tl' @ ''>'') (c'(1 \<mapsto> lp @ x)))" for b' c'
    using x
    by (intro ms_Grp_Lit_Many_then) (auto simp: not_chr_def Suc_le_eq ms_Seq_Lit_Cons_reject simp del: ms.simps)
  then have 1: "ms (Seq (Grp 1 (Seq (Lit lp) (Many (not_chr (CHR 0x22)) 1))) ?R2) b' (lp @ x @ [CHR 0x22] @ tl' @ ''>'') c'
      = [(lp @ x @ [CHR 0x22] @ tl' @ ''>'', [], c'(1 \<mapsto> lp @ x))]" for b' c'
    by (simp only: 2 list.map prod.case)
  show ?thesis by (simp only: ms_Seq_Lit 1 list.map prod.case)
qed

lemma drop_pos: "0 < j \<Longrightarrow> drop j w = drop (j - 1) (tl w)"
  by (cases j) (simp_all add: drop_Suc)

lemma input_match:
  assumes x: "x \<noteq> []" "CHR 0x22 \<notin> set x" and t: "CHR ''>'' \<notin> set tl'"
    and p: "pre \<noteq> []" "CHR ''>'' \<notin> set pre"
    and later: "\<not> contains (la @ lp) (tl (la @ lp @ x @ [CHR 0x22] @ tl' @ ''>''))"
  shows "\<exists>rest. ms (input_pattern la lp) b (''<input'' @ pre @ la @ lp @ x @ [CHR 0x22] @ tl' @ ''>'') Map.empty
           = (''<input'' @ pre @ la @ lp @ x @ [CHR 0x22] @ tl' @ ''>'', [], [1 \<mapsto> lp @ x]) # rest"
proof -
  let ?S = "la @ lp @ x @ [CHR 0x22] @ tl' @ ''>''"
  let ?C = "Seq (Lit la) (Seq (Grp 1 (Seq (Lit lp) (Many (not_chr (CHR 0x22)) 1))) (Seq (Lit [CHR 0x22])
            (Seq (Many (not_chr CHR ''>'') 0) (Lit ''>''))))"
  have l: "ms ?C b' (drop j ?S) c = []" if "0 < j" for j b' c
  proof (rule ccontr)
    assume "ms ?C b' (drop j ?S) c \<noteq> []"
    then obtain v where v: "drop j ?S = la @ lp @ v" using ms_requires_prefix by blast
    have d: "drop j ?S = drop (j - 1) (tl ?S)" by (rule drop_pos [OF that])
    have "drop (j - 1) (tl ?S) = (la @ lp) @ v" using v [unfolded d] by (simp only: append_assoc)
    then have "startswith (drop (j - 1) (tl ?S)) (la @ lp)" by (simp only: startswith_append)
    then have "contains (la @ lp) (tl ?S)" by (rule startswith_drop_contains)
    with later show False by simp
  qed
  obtain rest where "ms (Seq (Many (not_chr CHR ''>'') 1) ?C) False (pre @ ?S) Map.empty
       = (pre @ ?S, [], [1 \<mapsto> lp @ x]) # rest"
    using ms_Many_backtrack [of pre "not_chr CHR ''>''" 1 ?C ?S Map.empty False ?S "[]" "[1 \<mapsto> lp @ x]" "[]"]
          l attribute_match [OF x t, of la lp _ Map.empty] p
    by (auto simp: not_chr_def Suc_le_eq simp del: ms.simps)
  then have "ms (input_pattern la lp) b (''<input'' @ pre @ ?S) Map.empty
       = (''<input'' @ pre @ ?S, [], [1 \<mapsto> lp @ x]) # map (\<lambda>(m2, s2, c2). (''<input'' @ m2, s2, c2)) rest"
    unfolding input_pattern_def by (simp only: ms_Seq_Lit) (simp del: ms.simps)
  then show ?thesis by blast
qed

lemma cb_element_split:
  "cb_element (''cb-'' @ x)
     = ''<input'' @ attr_prefix @ (''id='' @ [CHR 0x22]) @ ''cb-'' @ x @ [CHR 0x22] @ cb_tail @ ''>''"
  by (simp add: cb_element_def attr_prefix_def cb_tail_def)

lemma pledge_element_split:
  "pledge_element (''pledge_'' @ x)
     = ''<input'' @ attr_prefix @ (''name='' @ [CHR 0x22]) @ ''pledge_'' @ x @ [CHR 0x22] @ pledge_tail @ ''>''"
  by (simp add: pledge_element_def attr_prefix_def pledge_tail_def)

lemma contains_id_cb:
  "CHR 0x22 \<notin> set x \<Longrightarrow>
   contains (''id='' @ CHR 0x22 # ''cb-'') (x @ CHR 0x22 # CHR '' '' # t)
     = contains (''id='' @ CHR 0x22 # ''cb-'') (CHR 0x22 # CHR '' '' # t)"
  using contains_skip_quoted [of "CHR 0x22" x "''id=''" "CHR ''c''" "CHR '' ''" "''b-''" t] by simp

lemma contains_name_pledge:
  "CHR 0x22 \<notin> set x \<Longrightarrow>
   contains (''name='' @ CHR 0x22 # ''pledge_'') (x @ CHR 0x22 # CHR '' '' # t)
     = contains (''name='' @ CHR 0x22 # ''pledge_'') (CHR 0x22 # CHR '' '' # t)"
  using contains_skip_quoted [of "CHR 0x22" x "''name=''" "CHR ''p''" "CHR '' ''" "''ledge_''" t] by simp

lemma cb_later:
  "CHR 0x22 \<notin> set x \<Longrightarrow>
   \<not> contains ((''id='' @ [CHR 0x22]) @ ''cb-'')
        (tl ((''id='' @ [CHR 0x22]) @ ''cb-'' @ x @ [CHR 0x22] @ cb_tail @ ''>''))"
  using contains_id_cb [of x] by (simp add: cb_tail_def)

lemma pledge_later:
  "CHR 0x22 \<notin> set x \<Longrightarrow>
   \<not> contains ((''name='' @ [CHR 0x22]) @ ''pledge_'')
        (tl ((''name='' @ [CHR 0x22]) @ ''pledge_'' @ x @ [CHR 0x22] @ pledge_tail @ ''>''))"
  using contains_name_pledge [of x] by (simp add: pledge_tail_def)

lemma pledge_element_no_cb_id:
  "CHR 0x22 \<notin> set x \<Longrightarrow> \<not> contains (''id='' @ CHR 0x22 # ''cb-'') (pledge_element (''pledge_'' @ x))"
  using contains_id_cb [of x] by (simp add: pledge_element_def)

lemma input_pattern_empty: "ms (input_pattern la lp) b [] c = []"
  by (simp add: input_pattern_def ms_Seq_Lit_fail del: ms.simps)

lemma quote_needed: "CHR 0x22 \<in> needs (input_pattern la lp)"
  by (simp add: input_pattern_def)

lemma attr_prefix_facts: "attr_prefix \<noteq> []" "CHR ''>'' \<notin> set attr_prefix"
  by (simp_all add: attr_prefix_def)

lemma encode_cb_element:
  assumes "x \<noteq> []" "CHR 0x22 \<notin> set x"
  shows "process_checkboxes (cb_element (''cb-'' @ x)) = ''['' @ ''cb-'' @ x @ '']''"
proof -
  let ?E = "''<input'' @ attr_prefix @ (''id='' @ [CHR 0x22]) @ ''cb-'' @ x @ [CHR 0x22] @ cb_tail @ ''>''"
  have t: "CHR ''>'' \<notin> set cb_tail" by (simp add: cb_tail_def)
  from input_match [OF assms t attr_prefix_facts cb_later [OF assms(2)], of True]
  obtain rest where m: "ms (input_pattern (''id='' @ [CHR 0x22]) ''cb-'') True ?E Map.empty
       = (?E, [], [1 \<mapsto> ''cb-'' @ x]) # rest" by blast
  have "sub_from (input_pattern (''id='' @ [CHR 0x22]) ''cb-'') bracket_group1 True ?E
      = bracket_group1 ?E [1 \<mapsto> ''cb-'' @ x]
        @ sub_from (input_pattern (''id='' @ [CHR 0x22]) ''cb-'') bracket_group1 False []"
    by (rule sub_from_head [OF m]) simp
  then have 1: "re_sub cb_input_pattern bracket_group1 (cb_element (''cb-'' @ x)) = ''['' @ ''cb-'' @ x @ '']''"
    unfolding re_sub_def cb_input_pattern_alt cb_element_split
    by (simp add: input_pattern_empty bracket_group1_def group_def str_of_def del: ms.simps)
  have q: "CHR 0x22 \<notin> set (''['' @ ''cb-'' @ x @ '']'')" using assms(2) by simp
  have 2: "re_sub pledge_input_pattern bracket_group1 (''['' @ ''cb-'' @ x @ '']'') = ''['' @ ''cb-'' @ x @ '']''"
    unfolding re_sub_def pledge_input_pattern_alt
    by (rule sub_unchanged_without [OF quote_needed q])
  show ?thesis unfolding process_checkboxes_def 1 2 ..
qed

lemma cb_input_requires:
  assumes "ms cb_input_pattern b u c \<noteq> []"
  shows "contains (''id='' @ CHR 0x22 # ''cb-'') u"
proof -
  let ?C = "Seq (Lit (''id='' @ [CHR 0x22])) (Seq (Grp 1 (Seq (Lit ''cb-'') (Many (not_chr (CHR 0x22)) 1)))
       (Seq (Lit [CHR 0x22]) (Seq (Many (not_chr CHR ''>'') 0) (Lit ''>''))))"
  from assms obtain m1 s1 c1 where a: "(m1, s1, c1) \<in> set (ms (Lit ''<input'') b u c)"
      and r: "ms (Seq (Many (not_chr CHR ''>'') 1) ?C) (b \<and> m1 = []) s1 c1 \<noteq> []"
    unfolding cb_input_pattern_def using iffD1 [OF ms_Seq_nonempty] by blast
  from r obtain m2 s2 c2 where g: "(m2, s2, c2) \<in> set (ms (Many (not_chr CHR ''>'') 1) (b \<and> m1 = []) s1 c1)"
      and k: "ms ?C ((b \<and> m1 = []) \<and> m2 = []) s2 c2 \<noteq> []"
    using iffD1 [OF ms_Seq_nonempty] by blast
  from k obtain v where v: "s2 = (''id='' @ [CHR 0x22]) @ ''cb-'' @ v" using ms_requires_prefix by blast
  from ms_sound [OF a] ms_sound [OF g] v
  have "u = (m1 @ m2) @ (''id='' @ CHR 0x22 # ''cb-'') @ v" by simp
  then show ?thesis unfolding contains_iff by blast
qed

lemma encode_pledge_element:
  assumes "x \<noteq> []" "CHR 0x22 \<notin> set x"
  shows "process_checkboxes (pledge_element (''pledge_'' @ x)) = ''['' @ ''pledge_'' @ x @ '']''"
proof -
  let ?E = "''<input'' @ attr_prefix @ (''name='' @ [CHR 0x22]) @ ''pledge_'' @ x @ [CHR 0x22] @ pledge_tail @ ''>''"
  have "sub_from cb_input_pattern bracket_group1 True (pledge_element (''pledge_'' @ x))
          = pledge_element (''pledge_'' @ x)"
  proof (rule sub_from_no_match)
    fix pre post b' assume l: "pledge_element (''pledge_'' @ x) = pre @ post"
    show "ms cb_input_pattern b' post Map.empty = []"
    proof (rule ccontr)
      assume "ms cb_input_pattern b' post Map.empty \<noteq> []"
      then have "contains (''id='' @ CHR 0x22 # ''cb-'') post" by (rule cb_input_requires)
      then obtain p1 p2 where "post = p1 @ (''id='' @ CHR 0x22 # ''cb-'') @ p2"
        unfolding contains_iff by blast
      with l have "pledge_element (''pledge_'' @ x) = (pre @ p1) @ (''id='' @ CHR 0x22 # ''cb-'') @ p2"
        by simp
      then have "contains (''id='' @ CHR 0x22 # ''cb-'') (pledge_element (''pledge_'' @ x))"
        unfolding contains_iff by blast
      with pledge_element_no_cb_id [OF assms(2)] show False by simp
    qed
  qed
  then have 1: "re_sub cb_input_pattern bracket_group1 (pledge_element (''pledge_'' @ x))
          = pledge_element (''pledge_'' @ x)"
    by (simp only: re_sub_def)
  have t: "CHR ''>'' \<notin> set pledge_tail" by (simp add: pledge_tail_def)
  from input_match [OF assms t attr_prefix_facts pledge_later [OF assms(2)], of True]
  obtain rest where m: "ms (input_pattern (''name='' @ [CHR 0x22]) ''pledge_'') True ?E Map.empty
       = (?E, [], [1 \<mapsto> ''pledge_'' @ x]) # rest" by blast
  have "sub_from (input_pattern (''name='' @ [CHR 0x22]) ''pledge_'') bracket_group1 True ?E
      = bracket_group1 ?E [1 \<mapsto> ''pledge_'' @ x]
        @ sub_from (input_pattern (''name='' @ [CHR 0x22]) ''pledge_'') bracket_group1 False []"
    by (rule sub_from_head [OF m]) simp
  then have 2: "re_sub pledge_input_pattern bracket_group1 (pledge_element (''pledge_'' @ x))
        = ''['' @ ''pledge_'' @ x @ '']''"
    unfolding re_sub_def pledge_input_pattern_alt pledge_element_split
    by (simp add: input_pattern_empty bracket_group1_def group_def str_of_def del: ms.simps)
  show ?thesis unfolding process_checkboxes_def 1 2 ..
qed

text \<open>
  Claim C3, as stated: for every identifier token, encoding the decoded element gives the
  token back, and decoding, encoding and decoding again equals decoding once. For the
  token \<^verbatim>\<open>[cb-a"b]\<close>, whose identifier holds a double quote, the decoder writes the
  element with that identifier, and the encoder reads the identifier up to the quote
  only: the token that comes back is \<^verbatim>\<open>[cb-a]\<close>.
\<close>

theorem control_canonicalization_counterexample:
  "restore_checkboxes [''[cb-a'' @ [CHR 0x22] @ ''b]'']
      = [cb_element (''cb-a'' @ [CHR 0x22] @ ''b'')]
   \<and> process_checkboxes (cb_element (''cb-a'' @ [CHR 0x22] @ ''b'')) = ''[cb-a]''
   \<and> ''[cb-a]'' \<noteq> ''[cb-a'' @ [CHR 0x22] @ ''b]''
   \<and> restore_checkboxes (map process_checkboxes (restore_checkboxes [''[cb-a'' @ [CHR 0x22] @ ''b]'']))
       \<noteq> restore_checkboxes [''[cb-a'' @ [CHR 0x22] @ ''b]'']"
  by code_simp

text \<open>
  Claim C3, amended: for every identifier \<open>x\<close> that is not empty and holds neither \<open>]\<close>
  nor a double quote, decoding the token \<^verbatim>\<open>[cb-x]\<close> gives exactly the fixed element
  \<open>cb_element\<close> (checked, class \<open>cb-sa\<close>, the \<open>onchange\<close> hook) with the identifier
  \<open>cb-x\<close>, encoding that element gives the token back, and decoding, encoding and
  decoding again equals decoding once; the same holds for the token \<^verbatim>\<open>[pledge_x]\<close> and
  the element \<open>pledge_element\<close> (checked, class \<open>data-input\<close>) when \<open>x\<close> also holds no
  \<open>[\<close>.
\<close>

theorem control_canonicalization:
  assumes "x \<noteq> []" "CHR '']'' \<notin> set x" "CHR 0x22 \<notin> set x"
  shows "restore_checkboxes [''['' @ ''cb-'' @ x @ '']''] = [cb_element (''cb-'' @ x)]
       \<and> process_checkboxes (cb_element (''cb-'' @ x)) = ''['' @ ''cb-'' @ x @ '']''
       \<and> restore_checkboxes (map process_checkboxes (restore_checkboxes [''['' @ ''cb-'' @ x @ '']'']))
           = restore_checkboxes [''['' @ ''cb-'' @ x @ '']'']
       \<and> (CHR ''['' \<notin> set x \<longrightarrow>
            restore_checkboxes [''['' @ ''pledge_'' @ x @ '']''] = [pledge_element (''pledge_'' @ x)]
          \<and> process_checkboxes (pledge_element (''pledge_'' @ x)) = ''['' @ ''pledge_'' @ x @ '']''
          \<and> restore_checkboxes (map process_checkboxes (restore_checkboxes [''['' @ ''pledge_'' @ x @ '']'']))
              = restore_checkboxes [''['' @ ''pledge_'' @ x @ '']''])"
proof -
  have d: "restore_checkboxes [''['' @ ''cb-'' @ x @ '']''] = [cb_element (''cb-'' @ x)]"
    by (simp only: restore_checkboxes_def list.map restore_cb_token [OF assms(1,2)])
  have e: "process_checkboxes (cb_element (''cb-'' @ x)) = ''['' @ ''cb-'' @ x @ '']''"
    by (rule encode_cb_element [OF assms(1,3)])
  have i: "restore_checkboxes (map process_checkboxes (restore_checkboxes [''['' @ ''cb-'' @ x @ '']'']))
           = restore_checkboxes [''['' @ ''cb-'' @ x @ '']'']"
    by (simp only: d list.map e)
  have p: "restore_checkboxes [''['' @ ''pledge_'' @ x @ '']''] = [pledge_element (''pledge_'' @ x)]
          \<and> process_checkboxes (pledge_element (''pledge_'' @ x)) = ''['' @ ''pledge_'' @ x @ '']''
          \<and> restore_checkboxes (map process_checkboxes (restore_checkboxes [''['' @ ''pledge_'' @ x @ '']'']))
              = restore_checkboxes [''['' @ ''pledge_'' @ x @ '']'']"
    if b: "CHR ''['' \<notin> set x"
  proof -
    have d': "restore_checkboxes [''['' @ ''pledge_'' @ x @ '']''] = [pledge_element (''pledge_'' @ x)]"
      by (simp only: restore_checkboxes_def list.map restore_pledge_token [OF assms(1,2) b])
    have e': "process_checkboxes (pledge_element (''pledge_'' @ x)) = ''['' @ ''pledge_'' @ x @ '']''"
      by (rule encode_pledge_element [OF assms(1,3)])
    have "restore_checkboxes (map process_checkboxes (restore_checkboxes [''['' @ ''pledge_'' @ x @ '']'']))
              = restore_checkboxes [''['' @ ''pledge_'' @ x @ '']'']"
      by (simp only: d' list.map e')
    with d' e' show ?thesis by (intro conjI)
  qed
  from d e i p show ?thesis by blast
qed

theorem control_canonicalization_witness:
  "restore_checkboxes [''[cb-1-1]'']
     = [''<input type='' @ [CHR 0x27] @ ''checkbox'' @ [CHR 0x27] @ '' checked id='' @ [CHR 0x22]
        @ ''cb-1-1'' @ [CHR 0x22] @ '' class='' @ [CHR 0x22] @ ''cb-sa'' @ [CHR 0x22]
        @ '' onchange='' @ [CHR 0x22] @ ''toggleCheckboxes(event)'' @ [CHR 0x22] @ ''/>'']
   \<and> process_checkboxes (cb_element ''cb-1-1'') = ''[cb-1-1]''
   \<and> restore_checkboxes [''[pledge_1_2_3]'']
     = [''<input type='' @ [CHR 0x27] @ ''checkbox'' @ [CHR 0x27] @ '' checked name='' @ [CHR 0x22]
        @ ''pledge_1_2_3'' @ [CHR 0x22] @ '' class='' @ [CHR 0x22] @ ''data-input'' @ [CHR 0x22] @ '' />'']
   \<and> process_checkboxes (pledge_element ''pledge_1_2_3'') = ''[pledge_1_2_3]''"
proof -
  have a: "''1-1'' \<noteq> []" "CHR '']'' \<notin> set ''1-1''" "CHR 0x22 \<notin> set ''1-1''" by simp_all
  have b: "''1_2_3'' \<noteq> []" "CHR '']'' \<notin> set ''1_2_3''" "CHR 0x22 \<notin> set ''1_2_3''"
      "CHR ''['' \<notin> set ''1_2_3''" by simp_all
  from control_canonicalization [OF a]
  have 1: "restore_checkboxes [''[cb-1-1]''] = [cb_element ''cb-1-1'']"
      "process_checkboxes (cb_element ''cb-1-1'') = ''[cb-1-1]''"
    by simp_all
  from control_canonicalization [OF b(1-3)] b(4)
  have 2: "restore_checkboxes [''[pledge_1_2_3]''] = [pledge_element ''pledge_1_2_3'']"
      "process_checkboxes (pledge_element ''pledge_1_2_3'') = ''[pledge_1_2_3]''"
    by simp_all
  show ?thesis using 1 2 by (simp add: cb_element_def pledge_element_def)
qed

end
